theory Spec2Isabelle
  imports Main
begin

section \<open>Data model of \<open>src/index.js\<close>\<close>

text \<open>
  The marks are the JavaScript strings \<open>'X'\<close> and \<open>'O'\<close>; a cell of the board holds one
  of them or the empty string \<open>''\<close>.  A cell is modelled as \<open>player option\<close>:
  \<open>None\<close> is \<open>''\<close>, \<open>Some PX\<close> is \<open>'X'\<close>, \<open>Some PO\<close> is \<open>'O'\<close>.  The board is the array
  of rows \<open>gameBoard\<close>.  Indices, sizes and loop counters are JavaScript numbers holding
  integers; they are modelled as \<open>int\<close>, so that \<open>boardSize - winLength\<close> may be negative
  as in the source.
\<close>

datatype player = PX | PO

type_synonym cell = "player option"
type_synonym board = "cell list list"

text \<open>The text of \<open>statusElement\<close>: "Player p's Turn", "Game ended in a tie!",
  "Player p wins!".\<close>

datatype status_text = TurnOf player | TieGame | WinsGame player

text \<open>Exceptions of the JavaScript runtime that the code can raise.\<close>

datatype js_exception = TypeError | RangeError

text \<open>
  The global variables of the script, together with the part of the page they write to:
  \<open>statusText\<close> is \<open>statusElement.textContent\<close>, \<open>highlighted\<close> lists the cells that were
  given the class \<open>winning-cell\<close> (in the order of the calls), and \<open>aiTimers\<close> counts the
  pending \<open>setTimeout(makeAIMove, 500)\<close> calls (every pending timeout is the same call
  with the same delay, so the queue of timeouts is given by its length).  The text and the classes \<open>x\<close>/\<open>o\<close> of the
  cell elements mirror \<open>gameBoard\<close> and are not modelled.
\<close>

record game =
  boardSize :: int
  gameMode :: string
  currentPlayer :: player
  gameBoard :: board
  gameActive :: bool
  aiPlayer :: player
  winLength :: int
  statusText :: status_text
  highlighted :: "(int \<times> int) list"
  aiTimers :: nat

text \<open>The state of the script after its top-level declarations (lines 2-8).\<close>

definition initialGlobals :: game where
  "initialGlobals =
     \<lparr> boardSize = 3, gameMode = ''human'', currentPlayer = PX, gameBoard = [],
       gameActive = True, aiPlayer = PO, winLength = 3, statusText = TurnOf PX,
       highlighted = [], aiTimers = 0 \<rparr>"

text \<open>\<open>board[r][c]\<close> and \<open>board[r][c] = v\<close> for indices inside the arrays.\<close>

definition cellAt :: "board \<Rightarrow> int \<Rightarrow> int \<Rightarrow> cell" where
  "cellAt b r c = b ! nat r ! nat c"

definition setCell :: "board \<Rightarrow> int \<Rightarrow> int \<Rightarrow> cell \<Rightarrow> board" where
  "setCell b r c v = b[nat r := (b ! nat r)[nat c := v]]"

text \<open>A board is well formed for size \<open>N\<close> when it has \<open>N\<close> rows of \<open>N\<close> cells, as
  \<open>initGame\<close> builds it.\<close>

definition wfBoard :: "int \<Rightarrow> board \<Rightarrow> bool" where
  "wfBoard N b \<longleftrightarrow> 0 \<le> N \<and> length b = nat N \<and> list_all (\<lambda>row. length row = nat N) b"

text \<open>The negation of the guard
  \<open>rr < 0 || rr >= boardSize || cc < 0 || cc >= boardSize\<close>.\<close>

definition inBounds :: "int \<Rightarrow> int \<Rightarrow> int \<Rightarrow> bool" where
  "inBounds N r c \<longleftrightarrow> \<not> (r < 0 \<or> r \<ge> N \<or> c < 0 \<or> c \<ge> N)"

text \<open>\<open>aiPlayer === 'X' ? 'O' : 'X'\<close>\<close>

definition opponentOf :: "player \<Rightarrow> player" where
  "opponentOf p = (if p = PX then PO else PX)"

section \<open>Session creation: \<open>initGame\<close> (lines 18-35)\<close>

text \<open>
  \<open>sz\<close> is \<open>parseInt(boardSizeSelect.value)\<close> and \<open>mode\<close> is \<open>gameModeSelect.value\<close>.
  The assignments of lines 19-25 come first; \<open>Array(boardSize)\<close> on line 28 throws a
  RangeError for a negative size, after those assignments.  The result is the exception
  raised, if any, and the globals afterwards.  \<open>createBoard\<close> rebuilds the cell elements,
  so no cell is highlighted afterwards.
\<close>

definition initGame :: "int \<Rightarrow> string \<Rightarrow> game \<Rightarrow> js_exception option \<times> game" where
  "initGame sz mode g =
     (let g1 = g\<lparr> boardSize := sz, gameMode := mode, currentPlayer := PX,
                  gameActive := True, winLength := (if sz > 6 then 4 else 3) \<rparr>
      in if sz < 0 then (Some RangeError, g1)
         else (None, g1\<lparr> gameBoard := replicate (nat sz) (replicate (nat sz) None),
                         highlighted := [], statusText := TurnOf PX \<rparr>))"

section \<open>Win detection (lines 106-171 and 362-409)\<close>

text \<open>The \<open>for (k = 1; k < winLength; k++)\<close> loop of \<open>checkSequence\<close>, over the list of
  the remaining values of \<open>k\<close>: \<open>False\<close> is the early \<open>return null\<close>.\<close>

primrec seqLoop :: "int \<Rightarrow> board \<Rightarrow> int \<Rightarrow> int \<Rightarrow> int \<Rightarrow> int \<Rightarrow> cell \<Rightarrow> int list \<Rightarrow> bool" where
  "seqLoop N b r c dr dc first [] = True"
| "seqLoop N b r c dr dc first (k # ks) =
     (let rr = r + dr * k; cc = c + dc * k
      in if rr < 0 \<or> rr \<ge> N \<or> cc < 0 \<or> cc \<ge> N then False
         else if cellAt b rr cc \<noteq> first then False
         else seqLoop N b r c dr dc first ks)"

text \<open>\<open>checkSequence\<close> of \<open>checkWinnerForMinimax\<close>: returns \<open>first\<close> or null.\<close>

definition checkSequenceM :: "int \<Rightarrow> int \<Rightarrow> board \<Rightarrow> int \<Rightarrow> int \<Rightarrow> int \<Rightarrow> int \<Rightarrow> player option" where
  "checkSequenceM N L b r c dr dc =
     (case cellAt b r c of
        None \<Rightarrow> None
      | Some p \<Rightarrow> if seqLoop N b r c dr dc (Some p) [1 .. L - 1] then Some p else None)"

text \<open>\<open>checkSequence\<close> of \<open>checkWinner\<close>: returns the object \<open>{winner, cells}\<close> or null.\<close>

definition checkSequence :: "int \<Rightarrow> int \<Rightarrow> board \<Rightarrow> int \<Rightarrow> int \<Rightarrow> int \<Rightarrow> int \<Rightarrow> (player \<times> (int \<times> int) list) option" where
  "checkSequence N L b r c dr dc =
     (case cellAt b r c of
        None \<Rightarrow> None
      | Some p \<Rightarrow>
          if seqLoop N b r c dr dc (Some p) [1 .. L - 1]
          then Some (p, map (\<lambda>k. (r + dr * k, c + dc * k)) [0 .. L - 1])
          else None)"

text \<open>
  The four pairs of nested loops visit these origins, in this order, each family with its
  direction \<open>(dr, dc)\<close>.  The same loop headers occur in \<open>checkWinner\<close>,
  \<open>checkWinnerForMinimax\<close> and \<open>evaluateBoard\<close>.
\<close>

definition rowOrigins :: "int \<Rightarrow> int \<Rightarrow> (int \<times> int) list" where
  "rowOrigins N L = concat (map (\<lambda>i. map (\<lambda>j. (i, j)) [0 .. N - L]) [0 .. N - 1])"

definition colOrigins :: "int \<Rightarrow> int \<Rightarrow> (int \<times> int) list" where
  "colOrigins N L = concat (map (\<lambda>i. map (\<lambda>j. (i, j)) [0 .. N - 1]) [0 .. N - L])"

definition diagOrigins :: "int \<Rightarrow> int \<Rightarrow> (int \<times> int) list" where
  "diagOrigins N L = concat (map (\<lambda>i. map (\<lambda>j. (i, j)) [0 .. N - L]) [0 .. N - L])"

definition antiOrigins :: "int \<Rightarrow> int \<Rightarrow> (int \<times> int) list" where
  "antiOrigins N L = concat (map (\<lambda>i. map (\<lambda>j. (i, j)) [L - 1 .. N - 1]) [0 .. N - L])"

text \<open>All windows in scan order: origin and direction.\<close>

definition windows :: "int \<Rightarrow> int \<Rightarrow> ((int \<times> int) \<times> (int \<times> int)) list" where
  "windows N L =
     map (\<lambda>p. (p, (0, 1))) (rowOrigins N L) @ map (\<lambda>p. (p, (1, 0))) (colOrigins N L) @
     map (\<lambda>p. (p, (1, 1))) (diagOrigins N L) @ map (\<lambda>p. (p, (1, - 1))) (antiOrigins N L)"

text \<open>A loop that returns at the first non-null result.\<close>

primrec firstSome :: "('a \<Rightarrow> 'b option) \<Rightarrow> 'a list \<Rightarrow> 'b option" where
  "firstSome f [] = None"
| "firstSome f (x # xs) = (case f x of Some y \<Rightarrow> Some y | None \<Rightarrow> firstSome f xs)"

definition checkWinnerForMinimax :: "int \<Rightarrow> int \<Rightarrow> board \<Rightarrow> player option" where
  "checkWinnerForMinimax N L b =
     firstSome (\<lambda>((i, j), (dr, dc)). checkSequenceM N L b i j dr dc) (windows N L)"

text \<open>The first non-null \<open>res\<close> of \<open>checkWinner\<close>.\<close>

definition winningSequence :: "int \<Rightarrow> int \<Rightarrow> board \<Rightarrow> (player \<times> (int \<times> int) list) option" where
  "winningSequence N L b =
     firstSome (\<lambda>((i, j), (dr, dc)). checkSequence N L b i j dr dc) (windows N L)"

text \<open>\<open>checkWinner\<close> passes \<open>res.cells\<close> to \<open>highlightWinningCells\<close> and returns
  \<open>res.winner\<close>.\<close>

definition checkWinner :: "game \<Rightarrow> player option \<times> game" where
  "checkWinner g =
     (case winningSequence (boardSize g) (winLength g) (gameBoard g) of
        None \<Rightarrow> (None, g)
      | Some (w, cells) \<Rightarrow> (Some w, g\<lparr> highlighted := highlighted g @ cells \<rparr>))"


section \<open>Board queries and moves\<close>

text \<open>The row-major double loop \<open>for i < boardSize, for j < boardSize\<close> used by
  \<open>isBoardFull\<close>, \<open>findBestMove\<close>, \<open>minimax\<close>, \<open>findWinningMove\<close> and
  \<open>makeRandomMove\<close>.\<close>

definition allCells :: "int \<Rightarrow> (int \<times> int) list" where
  "allCells N = concat (map (\<lambda>i. map (\<lambda>j. (i, j)) [0 .. N - 1]) [0 .. N - 1])"

text \<open>\<open>isBoardFullForMinimax\<close> (lines 412-421); \<open>isBoardFull\<close> (lines 182-191) is the
  same loop on \<open>gameBoard\<close>.\<close>

definition isBoardFullForMinimax :: "int \<Rightarrow> board \<Rightarrow> bool" where
  "isBoardFullForMinimax N b \<longleftrightarrow> list_all (\<lambda>(i, j). cellAt b i j \<noteq> None) (allCells N)"

definition isBoardFull :: "game \<Rightarrow> bool" where
  "isBoardFull g \<longleftrightarrow> list_all (\<lambda>(i, j). cellAt (gameBoard g) i j \<noteq> None) (allCells (boardSize g))"

text \<open>\<open>makeMove\<close> (lines 85-90): the write to \<open>gameBoard\<close>.\<close>

definition makeMove :: "int \<Rightarrow> int \<Rightarrow> game \<Rightarrow> game" where
  "makeMove row col g = g\<lparr> gameBoard := setCell (gameBoard g) row col (Some (currentPlayer g)) \<rparr>"

definition updateStatus :: "game \<Rightarrow> game" where
  "updateStatus g = (if gameActive g then g\<lparr> statusText := TurnOf (currentPlayer g) \<rparr> else g)"

definition switchPlayer :: "game \<Rightarrow> game" where
  "switchPlayer g = updateStatus (g\<lparr> currentPlayer := (if currentPlayer g = PX then PO else PX) \<rparr>)"

text \<open>The argument of \<open>endGame\<close>: a winning mark or \<open>'tie'\<close>.\<close>

datatype game_result = Winner player | Tie

definition endGame :: "game_result \<Rightarrow> game \<Rightarrow> game" where
  "endGame res g =
     (case res of
        Tie \<Rightarrow> g\<lparr> gameActive := False, statusText := TieGame \<rparr>
      | Winner w \<Rightarrow> g\<lparr> gameActive := False, statusText := WinsGame w \<rparr>)"

text \<open>\<open>checkGameEnd\<close> (lines 527-540).\<close>

definition checkGameEnd :: "game \<Rightarrow> game" where
  "checkGameEnd g =
     (let (winner, g1) = checkWinner g
      in case winner of
           Some w \<Rightarrow> endGame (Winner w) g1
         | None \<Rightarrow> if isBoardFull g1 then endGame Tie g1 else switchPlayer g1)"

section \<open>Heuristic evaluation: \<open>evaluateBoard\<close> (lines 313-359)\<close>

text \<open>
  The loop of \<open>scoreSequence\<close> with its two counters; \<open>None\<close> is the early \<open>return 0\<close>
  on a cell outside the board.  Scores are JavaScript numbers with integer values; they
  are modelled as unbounded integers.
\<close>

primrec scoreLoop :: "int \<Rightarrow> player \<Rightarrow> board \<Rightarrow> int \<Rightarrow> int \<Rightarrow> int \<Rightarrow> int \<Rightarrow> nat \<Rightarrow> nat \<Rightarrow> int list \<Rightarrow> (nat \<times> nat) option" where
  "scoreLoop N ai b r c dr dc countAI countOpp [] = Some (countAI, countOpp)"
| "scoreLoop N ai b r c dr dc countAI countOpp (k # ks) =
     (let rr = r + dr * k; cc = c + dc * k
      in if rr < 0 \<or> rr \<ge> N \<or> cc < 0 \<or> cc \<ge> N then None
         else if cellAt b rr cc = Some ai then scoreLoop N ai b r c dr dc (countAI + 1) countOpp ks
         else if cellAt b rr cc = Some (opponentOf ai) then scoreLoop N ai b r c dr dc countAI (countOpp + 1) ks
         else scoreLoop N ai b r c dr dc countAI countOpp ks)"

definition scoreSequence :: "int \<Rightarrow> int \<Rightarrow> player \<Rightarrow> board \<Rightarrow> int \<Rightarrow> int \<Rightarrow> int \<Rightarrow> int \<Rightarrow> int" where
  "scoreSequence N L ai b r c dr dc =
     (case scoreLoop N ai b r c dr dc 0 0 [0 .. L - 1] of
        None \<Rightarrow> 0
      | Some (countAI, countOpp) \<Rightarrow>
          if countAI > 0 \<and> countOpp = 0 then 10 ^ countAI
          else if countOpp > 0 \<and> countAI = 0 then - (10 ^ countOpp)
          else 0)"

definition evaluateBoard :: "int \<Rightarrow> int \<Rightarrow> player \<Rightarrow> board \<Rightarrow> int" where
  "evaluateBoard N L ai b =
     foldl (\<lambda>score ((i, j), (dr, dc)). score + scoreSequence N L ai b i j dr dc) 0 (windows N L)"

section \<open>Minimax search (lines 233-310)\<close>

text \<open>The numbers handled by the search: integers and the two infinities that
  initialise \<open>bestScore\<close>, \<open>alpha\<close> and \<open>beta\<close>.\<close>

datatype jsnum = NegInfinity | Number int | Infinity

instantiation jsnum :: linorder
begin

definition less_eq_jsnum :: "jsnum \<Rightarrow> jsnum \<Rightarrow> bool" where
  "less_eq_jsnum x y =
     (case x of
        NegInfinity \<Rightarrow> True
      | Number a \<Rightarrow> (case y of NegInfinity \<Rightarrow> False | Number b \<Rightarrow> a \<le> b | Infinity \<Rightarrow> True)
      | Infinity \<Rightarrow> (case y of Infinity \<Rightarrow> True | _ \<Rightarrow> False))"

definition less_jsnum :: "jsnum \<Rightarrow> jsnum \<Rightarrow> bool" where
  "less_jsnum x y = (x \<le> y \<and> \<not> y \<le> (x::jsnum))"

instance
proof
  fix x y z :: jsnum
  show "(x < y) = (x \<le> y \<and> \<not> y \<le> x)" by (simp add: less_jsnum_def)
  show "x \<le> x" by (simp add: less_eq_jsnum_def split: jsnum.splits)
  show "x \<le> y \<Longrightarrow> y \<le> z \<Longrightarrow> x \<le> z"
    by (auto simp: less_eq_jsnum_def split: jsnum.splits)
  show "x \<le> y \<Longrightarrow> y \<le> x \<Longrightarrow> x = y"
    by (auto simp: less_eq_jsnum_def split: jsnum.splits)
  show "x \<le> y \<or> y \<le> x"
    by (auto simp: less_eq_jsnum_def split: jsnum.splits)
qed

end

text \<open>
  \<open>minimax\<close> works on the shared array \<open>board\<close>: it writes a mark, recurses and writes
  \<open>''\<close> back.  The model passes the board in and returns it together with the score.
  \<open>maxLoop\<close> and \<open>minLoop\<close> are the two double loops, over the cells that remain to be
  visited, with the current \<open>alpha\<close>, \<open>beta\<close> and \<open>bestScore\<close>.
\<close>

function minimax :: "int \<Rightarrow> int \<Rightarrow> player \<Rightarrow> board \<Rightarrow> int \<Rightarrow> bool \<Rightarrow> jsnum \<Rightarrow> jsnum \<Rightarrow> int \<Rightarrow> board \<times> jsnum"
  and maxLoop :: "int \<Rightarrow> int \<Rightarrow> player \<Rightarrow> board \<Rightarrow> int \<Rightarrow> jsnum \<Rightarrow> jsnum \<Rightarrow> int \<Rightarrow> jsnum \<Rightarrow> (int \<times> int) list \<Rightarrow> board \<times> jsnum"
  and minLoop :: "int \<Rightarrow> int \<Rightarrow> player \<Rightarrow> board \<Rightarrow> int \<Rightarrow> jsnum \<Rightarrow> jsnum \<Rightarrow> int \<Rightarrow> jsnum \<Rightarrow> (int \<times> int) list \<Rightarrow> board \<times> jsnum"
where
  "minimax N L ai board depth isMaximizing alpha beta maxDepth =
     (let winner = checkWinnerForMinimax N L board
      in if winner = Some ai then (board, Number (1000 - depth))
         else if winner = Some (opponentOf ai) then (board, Number (depth - 1000))
         else if isBoardFullForMinimax N board then (board, Number 0)
         else if depth \<ge> maxDepth then (board, Number (evaluateBoard N L ai board))
         else if isMaximizing
           then maxLoop N L ai board depth alpha beta maxDepth NegInfinity (allCells N)
           else minLoop N L ai board depth alpha beta maxDepth Infinity (allCells N))"
| "maxLoop N L ai board depth alpha beta maxDepth bestScore [] = (board, bestScore)"
| "maxLoop N L ai board depth alpha beta maxDepth bestScore ((i, j) # rest) =
     (if cellAt board i j = None then
        (let (board1, score) =
               minimax N L ai (setCell board i j (Some ai)) (depth + 1) False alpha beta maxDepth;
             board2 = setCell board1 i j None;
             bestScore' = max score bestScore;
             alpha' = max alpha score
         in if beta \<le> alpha' then (board2, bestScore')
            else maxLoop N L ai board2 depth alpha' beta maxDepth bestScore' rest)
      else maxLoop N L ai board depth alpha beta maxDepth bestScore rest)"
| "minLoop N L ai board depth alpha beta maxDepth bestScore [] = (board, bestScore)"
| "minLoop N L ai board depth alpha beta maxDepth bestScore ((i, j) # rest) =
     (if cellAt board i j = None then
        (let (board1, score) =
               minimax N L ai (setCell board i j (Some (opponentOf ai))) (depth + 1) True alpha beta maxDepth;
             board2 = setCell board1 i j None;
             bestScore' = min score bestScore;
             beta' = min beta score
         in if beta' \<le> alpha then (board2, bestScore')
            else minLoop N L ai board2 depth alpha beta' maxDepth bestScore' rest)
      else minLoop N L ai board depth alpha beta maxDepth bestScore rest)"
  by pat_completeness auto
termination
  by (relation "measures
        [\<lambda>x. case x of
                Inl (N, L, ai, board, depth, isMaximizing, alpha, beta, maxDepth) \<Rightarrow>
                  2 * nat (maxDepth - depth)
              | Inr (Inl (N, L, ai, board, depth, alpha, beta, maxDepth, bestScore, cells)) \<Rightarrow>
                  2 * nat (maxDepth - depth - 1) + 1
              | Inr (Inr (N, L, ai, board, depth, alpha, beta, maxDepth, bestScore, cells)) \<Rightarrow>
                  2 * nat (maxDepth - depth - 1) + 1,
         \<lambda>x. case x of
                Inl _ \<Rightarrow> 0
              | Inr (Inl (N, L, ai, board, depth, alpha, beta, maxDepth, bestScore, cells)) \<Rightarrow>
                  length cells
              | Inr (Inr (N, L, ai, board, depth, alpha, beta, maxDepth, bestScore, cells)) \<Rightarrow>
                  length cells]")
     auto


declare minimax.simps(1) [simp del]

text \<open>The depth ceiling chosen by \<open>findBestMove\<close> (lines 238-242).\<close>

definition maxDepthFor :: "int \<Rightarrow> int" where
  "maxDepthFor N = (if N \<le> 3 then 9 else if N = 4 then 6 else if N = 5 then 4 else 3)"

text \<open>The double loop of \<open>findBestMove\<close> on \<open>gameBoard\<close>, with \<open>bestScore\<close> and
  \<open>bestMove\<close> (\<open>None\<close> is null).\<close>

fun bestMoveLoop :: "int \<Rightarrow> int \<Rightarrow> player \<Rightarrow> board \<Rightarrow> int \<Rightarrow> jsnum \<Rightarrow> (int \<times> int) option \<Rightarrow> (int \<times> int) list \<Rightarrow> board \<times> (int \<times> int) option" where
  "bestMoveLoop N L ai board maxDepth bestScore bestMove [] = (board, bestMove)"
| "bestMoveLoop N L ai board maxDepth bestScore bestMove ((i, j) # rest) =
     (if cellAt board i j = None then
        (let (board1, score) =
               minimax N L ai (setCell board i j (Some ai)) 0 False NegInfinity Infinity maxDepth;
             board2 = setCell board1 i j None
         in if score > bestScore
            then bestMoveLoop N L ai board2 maxDepth score (Some (i, j)) rest
            else bestMoveLoop N L ai board2 maxDepth bestScore bestMove rest)
      else bestMoveLoop N L ai board maxDepth bestScore bestMove rest)"

definition findBestMove :: "game \<Rightarrow> (int \<times> int) option \<times> game" where
  "findBestMove g =
     (let (b, bestMove) =
            bestMoveLoop (boardSize g) (winLength g) (aiPlayer g) (gameBoard g)
              (maxDepthFor (boardSize g)) NegInfinity None (allCells (boardSize g))
      in (bestMove, g\<lparr> gameBoard := b \<rparr>))"

section \<open>Heuristic move selection (lines 424-524)\<close>

text \<open>The double loop of \<open>findWinningMove\<close>: place the mark, test, write \<open>''\<close> back.\<close>

fun winningMoveLoop :: "int \<Rightarrow> int \<Rightarrow> player \<Rightarrow> board \<Rightarrow> (int \<times> int) list \<Rightarrow> board \<times> (int \<times> int) option" where
  "winningMoveLoop N L player board [] = (board, None)"
| "winningMoveLoop N L player board ((i, j) # rest) =
     (if cellAt board i j = None then
        (let board1 = setCell board i j (Some player);
             winner = checkWinnerForMinimax N L board1;
             board2 = setCell board1 i j None
         in if winner = Some player then (board2, Some (i, j))
            else winningMoveLoop N L player board2 rest)
      else winningMoveLoop N L player board rest)"

definition findWinningMove :: "player \<Rightarrow> game \<Rightarrow> (int \<times> int) option \<times> game" where
  "findWinningMove player g =
     (let (b, move) =
            winningMoveLoop (boardSize g) (winLength g) player (gameBoard g) (allCells (boardSize g))
      in (move, g\<lparr> gameBoard := b \<rparr>))"

definition corners :: "int \<Rightarrow> (int \<times> int) list" where
  "corners N = [(0, 0), (0, N - 1), (N - 1, 0), (N - 1, N - 1)]"

definition findStrategicMove :: "game \<Rightarrow> (int \<times> int) option" where
  "findStrategicMove g =
     (let center = boardSize g div 2
      in if cellAt (gameBoard g) center center = None then Some (center, center)
         else find (\<lambda>(row, col). cellAt (gameBoard g) row col = None) (corners (boardSize g)))"

text \<open>The list \<open>emptyCells\<close> built by \<open>makeRandomMove\<close>.\<close>

definition emptyCells :: "game \<Rightarrow> (int \<times> int) list" where
  "emptyCells g = filter (\<lambda>(i, j). cellAt (gameBoard g) i j = None) (allCells (boardSize g))"

text \<open>
  \<open>randomIndex\<close> stands for the value of
  \<open>Math.floor(Math.random() * emptyCells.length)\<close>, which lies below
  \<open>emptyCells.length\<close>; the random source itself is outside the model.
\<close>

definition makeRandomMove :: "nat \<Rightarrow> game \<Rightarrow> game" where
  "makeRandomMove randomIndex g =
     (if length (emptyCells g) > 0
      then (let (row, col) = emptyCells g ! randomIndex in makeMove row col g)
      else g)"

definition makeHeuristicAIMove :: "nat \<Rightarrow> game \<Rightarrow> game" where
  "makeHeuristicAIMove randomIndex g =
     (let (move, g1) = findWinningMove (aiPlayer g) g
      in case move of
           Some (row, col) \<Rightarrow> checkGameEnd (makeMove row col g1)
         | None \<Rightarrow>
             (let (move, g2) = findWinningMove (if currentPlayer g1 = PX then PO else PX) g1
              in case move of
                   Some (row, col) \<Rightarrow> checkGameEnd (makeMove row col g2)
                 | None \<Rightarrow>
                     (case findStrategicMove g2 of
                        Some (row, col) \<Rightarrow> checkGameEnd (makeMove row col g2)
                      | None \<Rightarrow> checkGameEnd (makeRandomMove randomIndex g2))))"

section \<open>Turns: \<open>handleCellClick\<close> (lines 56-82) and \<open>makeAIMove\<close> (lines 204-230)\<close>

definition makeAIMove :: "nat \<Rightarrow> game \<Rightarrow> game" where
  "makeAIMove randomIndex g =
     (if \<not> gameActive g then g
      else if boardSize g > 5 then makeHeuristicAIMove randomIndex g
      else (let (bestMove, g1) = findBestMove g
            in case bestMove of
                 None \<Rightarrow> g1
               | Some (row, col) \<Rightarrow>
                   (let (winner, g2) = checkWinner (makeMove row col g1)
                    in case winner of
                         Some w \<Rightarrow> endGame (Winner w) g2
                       | None \<Rightarrow> if isBoardFull g2 then endGame Tie g2 else switchPlayer g2)))"

text \<open>
  The guard \<open>!gameActive || gameBoard[row][col] !== ''\<close> is evaluated first.  When the
  game is active and \<open>row\<close> is no index of \<open>gameBoard\<close>, \<open>gameBoard[row]\<close> is undefined and
  reading \<open>[col]\<close> from it throws a TypeError; when \<open>col\<close> is no index of the row, the value
  read is undefined, which differs from \<open>''\<close>, and the function returns.  The result is
  the exception raised, if any, and the globals afterwards.
\<close>

definition handleCellClick :: "int \<Rightarrow> int \<Rightarrow> game \<Rightarrow> js_exception option \<times> game" where
  "handleCellClick row col g =
     (if \<not> gameActive g then (None, g)
      else if \<not> (0 \<le> row \<and> row < int (length (gameBoard g))) then (Some TypeError, g)
      else if \<not> (0 \<le> col \<and> col < int (length (gameBoard g ! nat row))) then (None, g)
      else if cellAt (gameBoard g) row col \<noteq> None then (None, g)
      else (let (winner, g1) = checkWinner (makeMove row col g)
            in case winner of
                 Some w \<Rightarrow> (None, endGame (Winner w) g1)
               | None \<Rightarrow>
                   if isBoardFull g1 then (None, endGame Tie g1)
                   else (let g2 = switchPlayer g1
                         in if gameMode g2 = ''ai'' \<and> currentPlayer g2 = aiPlayer g2 \<and> gameActive g2
                            then (None, g2\<lparr> aiTimers := aiTimers g2 + 1 \<rparr>)
                            else (None, g2))))"

text \<open>The oldest pending timeout fires and runs \<open>makeAIMove\<close>.\<close>

definition fireTimer :: "nat \<Rightarrow> game \<Rightarrow> game" where
  "fireTimer randomIndex g =
     (if aiTimers g > 0 then makeAIMove randomIndex (g\<lparr> aiTimers := aiTimers g - 1 \<rparr>) else g)"

text \<open>A game against the computer: each click of the human player is followed by the
  timeout it scheduled, if any.  An event is the clicked row and column and the random
  index drawn should the heuristic selector fall back to a random move.\<close>

fun humanTurn :: "game \<Rightarrow> int \<times> int \<times> nat \<Rightarrow> game" where
  "humanTurn g (row, col, randomIndex) = fireTimer randomIndex (snd (handleCellClick row col g))"

definition playGame :: "game \<Rightarrow> (int \<times> int \<times> nat) list \<Rightarrow> game" where
  "playGame g clicks = foldl humanTurn g clicks"


section \<open>Array reads with their failures\<close>

text \<open>
  \<open>board[r][c]\<close> on JavaScript arrays: when \<open>r\<close> is no index of \<open>board\<close>, \<open>board[r]\<close> is
  undefined and reading \<open>[c]\<close> from it throws a TypeError (\<open>RowOutOfRange\<close>); when \<open>c\<close> is
  no index of the row, the value read is undefined (\<open>ColumnOutOfRange\<close>).  The functions
  below are the win detectors again, with every read checked: they stop at the first read
  that is not a cell of the board and report it.
\<close>

datatype read_fault = RowOutOfRange | ColumnOutOfRange

definition readCell :: "board \<Rightarrow> int \<Rightarrow> int \<Rightarrow> read_fault + cell" where
  "readCell b r c =
     (if \<not> (0 \<le> r \<and> r < int (length b)) then Inl RowOutOfRange
      else if \<not> (0 \<le> c \<and> c < int (length (b ! nat r))) then Inl ColumnOutOfRange
      else Inr (b ! nat r ! nat c))"

primrec seqLoopR :: "int \<Rightarrow> board \<Rightarrow> int \<Rightarrow> int \<Rightarrow> int \<Rightarrow> int \<Rightarrow> cell \<Rightarrow> int list \<Rightarrow> read_fault + bool" where
  "seqLoopR N b r c dr dc first [] = Inr True"
| "seqLoopR N b r c dr dc first (k # ks) =
     (let rr = r + dr * k; cc = c + dc * k
      in if rr < 0 \<or> rr \<ge> N \<or> cc < 0 \<or> cc \<ge> N then Inr False
         else (case readCell b rr cc of
                 Inl e \<Rightarrow> Inl e
               | Inr v \<Rightarrow> if v \<noteq> first then Inr False else seqLoopR N b r c dr dc first ks))"

definition checkSequenceMR :: "int \<Rightarrow> int \<Rightarrow> board \<Rightarrow> int \<Rightarrow> int \<Rightarrow> int \<Rightarrow> int \<Rightarrow> read_fault + player option" where
  "checkSequenceMR N L b r c dr dc =
     (case readCell b r c of
        Inl e \<Rightarrow> Inl e
      | Inr None \<Rightarrow> Inr None
      | Inr (Some p) \<Rightarrow>
          (case seqLoopR N b r c dr dc (Some p) [1 .. L - 1] of
             Inl e \<Rightarrow> Inl e
           | Inr ok \<Rightarrow> Inr (if ok then Some p else None)))"

definition checkSequenceR :: "int \<Rightarrow> int \<Rightarrow> board \<Rightarrow> int \<Rightarrow> int \<Rightarrow> int \<Rightarrow> int \<Rightarrow> read_fault + (player \<times> (int \<times> int) list) option" where
  "checkSequenceR N L b r c dr dc =
     (case readCell b r c of
        Inl e \<Rightarrow> Inl e
      | Inr None \<Rightarrow> Inr None
      | Inr (Some p) \<Rightarrow>
          (case seqLoopR N b r c dr dc (Some p) [1 .. L - 1] of
             Inl e \<Rightarrow> Inl e
           | Inr ok \<Rightarrow>
               Inr (if ok then Some (p, map (\<lambda>k. (r + dr * k, c + dc * k)) [0 .. L - 1])
                    else None)))"

primrec firstSomeR :: "('a \<Rightarrow> 'e + 'b option) \<Rightarrow> 'a list \<Rightarrow> 'e + 'b option" where
  "firstSomeR f [] = Inr None"
| "firstSomeR f (x # xs) =
     (case f x of
        Inl e \<Rightarrow> Inl e
      | Inr (Some y) \<Rightarrow> Inr (Some y)
      | Inr None \<Rightarrow> firstSomeR f xs)"

definition checkWinnerForMinimaxR :: "int \<Rightarrow> int \<Rightarrow> board \<Rightarrow> read_fault + player option" where
  "checkWinnerForMinimaxR N L b =
     firstSomeR (\<lambda>((i, j), (dr, dc)). checkSequenceMR N L b i j dr dc) (windows N L)"

definition winningSequenceR :: "int \<Rightarrow> int \<Rightarrow> board \<Rightarrow> read_fault + (player \<times> (int \<times> int) list) option" where
  "winningSequenceR N L b =
     firstSomeR (\<lambda>((i, j), (dr, dc)). checkSequenceR N L b i j dr dc) (windows N L)"

section \<open>Notions of the specification\<close>

text \<open>A run: \<open>L\<close> cells from \<open>(r, c)\<close> in direction \<open>(dr, dc)\<close>, all on the board and all
  holding the mark \<open>p\<close>.\<close>

definition runAt :: "int \<Rightarrow> int \<Rightarrow> board \<Rightarrow> player \<Rightarrow> int \<Rightarrow> int \<Rightarrow> int \<Rightarrow> int \<Rightarrow> bool" where
  "runAt N L b p r c dr dc \<longleftrightarrow>
     list_all (\<lambda>k. inBounds N (r + dr * k) (c + dc * k) \<and>
                   cellAt b (r + dr * k) (c + dc * k) = Some p) [0 .. L - 1]"

text \<open>Row, column, down-right diagonal, down-left diagonal.\<close>

definition directions :: "(int \<times> int) list" where
  "directions = [(0, 1), (1, 0), (1, 1), (1, - 1)]"

definition hasRun :: "int \<Rightarrow> int \<Rightarrow> board \<Rightarrow> player \<Rightarrow> bool" where
  "hasRun N L b p \<longleftrightarrow>
     list_ex (\<lambda>(r, c). list_ex (\<lambda>(dr, dc). runAt N L b p r c dr dc) directions) (allCells N)"

text \<open>The coordinates of the \<open>L\<close> consecutive cells from \<open>(r, c)\<close> in direction
  \<open>(dr, dc)\<close>, from the origin on.\<close>

definition runCells :: "int \<Rightarrow> int \<Rightarrow> int \<Rightarrow> int \<Rightarrow> int \<Rightarrow> (int \<times> int) list" where
  "runCells L r c dr dc = map (\<lambda>k. (r + dr * k, c + dc * k)) [0 .. L - 1]"

text \<open>The first complete run in scan order: all rows, then all columns, then the
  down-right diagonals, then the down-left diagonals, origins row by row within each
  family.\<close>

definition firstRun :: "int \<Rightarrow> int \<Rightarrow> board \<Rightarrow> ((int \<times> int) \<times> (int \<times> int)) option" where
  "firstRun N L b =
     find (\<lambda>((r, c), (dr, dc)). runAt N L b PX r c dr dc \<or> runAt N L b PO r c dr dc) (windows N L)"

text \<open>The window score of the specification: 0 for a window with marks of both players
  or with no mark, \<open>10^count\<close> for marks of the computing player only, \<open>-10^count\<close> for
  marks of the opponent only; and the sum over all windows.\<close>

definition windowCells :: "int \<Rightarrow> board \<Rightarrow> int \<Rightarrow> int \<Rightarrow> int \<Rightarrow> int \<Rightarrow> cell list" where
  "windowCells L b r c dr dc = map (\<lambda>k. cellAt b (r + dr * k) (c + dc * k)) [0 .. L - 1]"

definition windowScore :: "player \<Rightarrow> cell list \<Rightarrow> int" where
  "windowScore ai cells =
     (let countAI = length (filter (\<lambda>v. v = Some ai) cells);
          countOpp = length (filter (\<lambda>v. v = Some (opponentOf ai)) cells)
      in if countAI > 0 \<and> countOpp > 0 then 0
         else if countAI > 0 then 10 ^ countAI
         else if countOpp > 0 then - (10 ^ countOpp)
         else 0)"

definition evaluateSpec :: "int \<Rightarrow> int \<Rightarrow> player \<Rightarrow> board \<Rightarrow> int" where
  "evaluateSpec N L ai b =
     sum_list (map (\<lambda>((r, c), (dr, dc)). windowScore ai (windowCells L b r c dr dc)) (windows N L))"

text \<open>
  Depth-limited minimax without pruning: \<open>minimax\<close> with \<open>alpha\<close>, \<open>beta\<close> and the two
  \<open>if (beta <= alpha) return\<close> lines removed, as a function of the position; and the
  move \<open>findBestMove\<close> would choose from its scores.
\<close>

function minimaxPlain :: "int \<Rightarrow> int \<Rightarrow> player \<Rightarrow> board \<Rightarrow> int \<Rightarrow> bool \<Rightarrow> int \<Rightarrow> jsnum"
  and maxLoopPlain :: "int \<Rightarrow> int \<Rightarrow> player \<Rightarrow> board \<Rightarrow> int \<Rightarrow> int \<Rightarrow> jsnum \<Rightarrow> (int \<times> int) list \<Rightarrow> jsnum"
  and minLoopPlain :: "int \<Rightarrow> int \<Rightarrow> player \<Rightarrow> board \<Rightarrow> int \<Rightarrow> int \<Rightarrow> jsnum \<Rightarrow> (int \<times> int) list \<Rightarrow> jsnum"
where
  "minimaxPlain N L ai board depth isMaximizing maxDepth =
     (let winner = checkWinnerForMinimax N L board
      in if winner = Some ai then Number (1000 - depth)
         else if winner = Some (opponentOf ai) then Number (depth - 1000)
         else if isBoardFullForMinimax N board then Number 0
         else if depth \<ge> maxDepth then Number (evaluateBoard N L ai board)
         else if isMaximizing
           then maxLoopPlain N L ai board depth maxDepth NegInfinity (allCells N)
           else minLoopPlain N L ai board depth maxDepth Infinity (allCells N))"
| "maxLoopPlain N L ai board depth maxDepth bestScore [] = bestScore"
| "maxLoopPlain N L ai board depth maxDepth bestScore ((i, j) # rest) =
     (if cellAt board i j = None then
        (let score = minimaxPlain N L ai (setCell board i j (Some ai)) (depth + 1) False maxDepth
         in maxLoopPlain N L ai board depth maxDepth (max score bestScore) rest)
      else maxLoopPlain N L ai board depth maxDepth bestScore rest)"
| "minLoopPlain N L ai board depth maxDepth bestScore [] = bestScore"
| "minLoopPlain N L ai board depth maxDepth bestScore ((i, j) # rest) =
     (if cellAt board i j = None then
        (let score = minimaxPlain N L ai (setCell board i j (Some (opponentOf ai))) (depth + 1) True maxDepth
         in minLoopPlain N L ai board depth maxDepth (min score bestScore) rest)
      else minLoopPlain N L ai board depth maxDepth bestScore rest)"
  by pat_completeness auto
termination
  by (relation "measures
        [\<lambda>x. case x of
                Inl (N, L, ai, board, depth, isMaximizing, maxDepth) \<Rightarrow>
                  2 * nat (maxDepth - depth)
              | Inr (Inl (N, L, ai, board, depth, maxDepth, bestScore, cells)) \<Rightarrow>
                  2 * nat (maxDepth - depth - 1) + 1
              | Inr (Inr (N, L, ai, board, depth, maxDepth, bestScore, cells)) \<Rightarrow>
                  2 * nat (maxDepth - depth - 1) + 1,
         \<lambda>x. case x of
                Inl _ \<Rightarrow> 0
              | Inr (Inl (N, L, ai, board, depth, maxDepth, bestScore, cells)) \<Rightarrow> length cells
              | Inr (Inr (N, L, ai, board, depth, maxDepth, bestScore, cells)) \<Rightarrow> length cells]")
     auto

declare minimaxPlain.simps(1) [simp del]

fun bestMoveLoopPlain :: "int \<Rightarrow> int \<Rightarrow> player \<Rightarrow> board \<Rightarrow> int \<Rightarrow> jsnum \<Rightarrow> (int \<times> int) option \<Rightarrow> (int \<times> int) list \<Rightarrow> (int \<times> int) option" where
  "bestMoveLoopPlain N L ai board maxDepth bestScore bestMove [] = bestMove"
| "bestMoveLoopPlain N L ai board maxDepth bestScore bestMove ((i, j) # rest) =
     (if cellAt board i j = None then
        (let score = minimaxPlain N L ai (setCell board i j (Some ai)) 0 False maxDepth
         in if score > bestScore
            then bestMoveLoopPlain N L ai board maxDepth score (Some (i, j)) rest
            else bestMoveLoopPlain N L ai board maxDepth bestScore bestMove rest)
      else bestMoveLoopPlain N L ai board maxDepth bestScore bestMove rest)"

definition findBestMovePlain :: "game \<Rightarrow> (int \<times> int) option" where
  "findBestMovePlain g =
     bestMoveLoopPlain (boardSize g) (winLength g) (aiPlayer g) (gameBoard g)
       (maxDepthFor (boardSize g)) NegInfinity None (allCells (boardSize g))"


text \<open>
  What a search with window \<open>(a, b)\<close> promises about its result \<open>s\<close>, where \<open>v\<close> is the
  value without pruning: a result at or below \<open>a\<close> is an upper bound of \<open>v\<close>, a result at
  or above \<open>b\<close> is a lower bound, and a result strictly inside the window is \<open>v\<close> itself.
\<close>

definition agreesWithin :: "jsnum \<Rightarrow> jsnum \<Rightarrow> jsnum \<Rightarrow> jsnum \<Rightarrow> bool" where
  "agreesWithin a b v s \<longleftrightarrow>
     (s \<le> a \<longrightarrow> v \<le> s) \<and> (a < s \<and> s < b \<longrightarrow> s = v) \<and> (b \<le> s \<longrightarrow> s \<le> v)"

text \<open>
  The heuristic cascade in the words of the specification.  A cell gives a player an
  immediate win when it is empty and win detection reports that player once the mark is
  placed.  The target is the first such cell for the computing player (row-major order),
  else the first such cell for the opponent, else the center if it is empty, else the
  first empty corner (top-left, top-right, bottom-left, bottom-right), else the empty cell
  with the drawn index.
\<close>

definition immediateWin :: "int \<Rightarrow> int \<Rightarrow> board \<Rightarrow> player \<Rightarrow> int \<times> int \<Rightarrow> bool" where
  "immediateWin N L b p cell =
     (case cell of (i, j) \<Rightarrow>
        cellAt b i j = None \<and> checkWinnerForMinimax N L (setCell b i j (Some p)) = Some p)"

definition strategicTarget :: "game \<Rightarrow> (int \<times> int) option" where
  "strategicTarget g =
     (let N = boardSize g; center = N div 2
      in if cellAt (gameBoard g) center center = None then Some (center, center)
         else find (\<lambda>(r, c). cellAt (gameBoard g) r c = None)
                [(0, 0), (0, N - 1), (N - 1, 0), (N - 1, N - 1)])"

definition heuristicTarget :: "nat \<Rightarrow> game \<Rightarrow> (int \<times> int) option" where
  "heuristicTarget randomIndex g =
     (let N = boardSize g; L = winLength g; b = gameBoard g; ai = aiPlayer g
      in case find (immediateWin N L b ai) (allCells N) of
           Some cell \<Rightarrow> Some cell
         | None \<Rightarrow>
            (case find (immediateWin N L b (opponentOf ai)) (allCells N) of
               Some cell \<Rightarrow> Some cell
             | None \<Rightarrow>
                (case strategicTarget g of
                   Some cell \<Rightarrow> Some cell
                 | None \<Rightarrow> if emptyCells g = [] then None
                           else Some (emptyCells g ! randomIndex))))"


text \<open>An \<open>8 \<times> 8\<close> position with three \<open>O\<close> in row 3, closed by \<open>X\<close> on the left and open on
  the right.\<close>

definition scenario8 :: board where
  "scenario8 =
     [[Some PX, None, None, None, None, None, None, None],
      [None, None, None, None, None, None, None, None],
      [None, None, None, None, None, None, None, None],
      [None, Some PX, Some PO, Some PO, Some PO, None, None, None],
      [None, None, None, None, None, None, None, None],
      [None, None, None, None, None, Some PX, None, None],
      [None, None, None, None, None, None, None, None],
      [None, None, None, None, None, None, None, Some PX]]"

text \<open>Two positions of a two-player game on the 3x3 board, each just after the fifth
  mark has been written: \<open>X (0,0), O (1,1), X (0,1), O (2,2), X (0,2)\<close> completes the top
  row, \<open>X (0,0), O (1,1), X (1,0), O (2,2), X (2,0)\<close> completes the left column.\<close>

definition rowWinPosition :: game where
  "rowWinPosition =
     makeMove 0 2 (playGame (snd (initGame 3 ''human'' initialGlobals))
                            [(0, 0, 0), (1, 1, 0), (0, 1, 0), (2, 2, 0)])"

definition columnWinPosition :: game where
  "columnWinPosition =
     makeMove 2 0 (playGame (snd (initGame 3 ''human'' initialGlobals))
                            [(0, 0, 0), (1, 1, 0), (1, 0, 0), (2, 2, 0)])"

text \<open>A position of a game against the computer on the 6x6 board.  The human player
  clicks \<open>(0, 0)\<close> and the computer answers (at the center).  The human player then clicks
  \<open>(0, 1)\<close> and, before the timeout of that click fires, clicks \<open>(5, 0)\<close>: the second
  click is accepted by \<open>handleCellClick\<close>, writes the mark of \<open>currentPlayer\<close>, which is
  \<open>O\<close>, and makes \<open>X\<close> the current player.  The timeout is still pending.\<close>

definition doubleClickPosition :: game where
  "doubleClickPosition =
     snd (handleCellClick 5 0
       (snd (handleCellClick 0 1
          (humanTurn (snd (initGame 6 ''ai'' initialGlobals)) (0, 0, 0)))))"

text \<open>The number of empty cells of a board.\<close>

definition emptyCount :: "int \<Rightarrow> board \<Rightarrow> nat" where
  "emptyCount N b = length (filter (\<lambda>(i, j). cellAt b i j = None) (allCells N))"

text \<open>
  The states of a game against the computer on the 3x3 board in which the human player
  \<open>X\<close> has not won and cannot force a win: no timeout is pending, the board holds no
  complete run of \<open>X\<close> and the status does not announce a win of \<open>X\<close>; while the game is
  active it is the turn of \<open>X\<close>, nobody has won, and the value of the position for the
  computer \<open>O\<close>, by the search without pruning with \<open>X\<close> to move, is not negative; once the
  game has ended the status announces a tie or a win of \<open>O\<close>.
\<close>

definition safeState :: "game \<Rightarrow> bool" where
  "safeState g \<longleftrightarrow>
     boardSize g = 3 \<and> winLength g = 3 \<and> aiPlayer g = PO \<and> gameMode g = ''ai'' \<and>
     wfBoard 3 (gameBoard g) \<and> aiTimers g = 0 \<and>
     checkWinnerForMinimax 3 3 (gameBoard g) \<noteq> Some PX \<and> statusText g \<noteq> WinsGame PX \<and>
     (if gameActive g
      then currentPlayer g = PX \<and> checkWinnerForMinimax 3 3 (gameBoard g) = None \<and>
           Number 0 \<le> minimaxPlain 3 3 PO (gameBoard g) 0 False 9
      else statusText g = TieGame \<or> statusText g = WinsGame PO)"

section \<open>Properties of win detection\<close>

lemma seqLoop_iff:
  "seqLoop N b r c dr dc first ks \<longleftrightarrow>
     (\<forall>k \<in> set ks. inBounds N (r + dr * k) (c + dc * k) \<and> cellAt b (r + dr * k) (c + dc * k) = first)"
  by (induction ks) (auto simp: Let_def inBounds_def)


lemma upto_from_zero: "1 \<le> L \<Longrightarrow> (\<forall>k \<in> set [0 .. L - 1]. P k) \<longleftrightarrow> P 0 \<and> (\<forall>k \<in> set [1 .. L - 1]. P k)"
proof -
  assume "1 \<le> L"
  then have "set [0 .. L - 1] = insert 0 (set [1 .. L - 1])" by auto
  then show ?thesis by simp
qed

lemma checkSequenceM_iff:
  assumes "1 \<le> L" "inBounds N r c"
  shows "checkSequenceM N L b r c dr dc = Some p \<longleftrightarrow> runAt N L b p r c dr dc"
proof -
  have "runAt N L b p r c dr dc \<longleftrightarrow>
          cellAt b r c = Some p \<and> seqLoop N b r c dr dc (Some p) [1 .. L - 1]"
    unfolding runAt_def list_all_iff seqLoop_iff
    using assms(2) by (subst upto_from_zero[OF assms(1)]) simp
  then show ?thesis
    by (auto simp: checkSequenceM_def split: option.splits)
qed

lemma checkSequenceM_Some_first:
  "checkSequenceM N L b r c dr dc = Some p \<Longrightarrow> cellAt b r c = Some p"
  by (auto simp: checkSequenceM_def split: option.splits if_splits)

lemma checkSequence_fst:
  "map_option fst (checkSequence N L b r c dr dc) = checkSequenceM N L b r c dr dc"
  by (auto simp: checkSequence_def checkSequenceM_def split: option.splits)

lemma checkSequence_cells:
  "checkSequence N L b r c dr dc = Some (w, cells) \<Longrightarrow>
     cells = map (\<lambda>k. (r + dr * k, c + dc * k)) [0 .. L - 1] \<and> checkSequenceM N L b r c dr dc = Some w"
  by (auto simp: checkSequence_def checkSequenceM_def split: option.splits if_splits)

lemma firstSome_None_iff: "firstSome f xs = None \<longleftrightarrow> (\<forall>x \<in> set xs. f x = None)"
  by (induction xs) (auto split: option.splits)

lemma firstSome_SomeD: "firstSome f xs = Some y \<Longrightarrow> \<exists>x \<in> set xs. f x = Some y"
  by (induction xs) (auto split: option.splits)

lemma firstSome_mem_not_None: "x \<in> set xs \<Longrightarrow> f x \<noteq> None \<Longrightarrow> firstSome f xs \<noteq> None"
  by (simp add: firstSome_None_iff) blast

lemma firstSome_window_SomeD:
  "firstSome (\<lambda>((i, j), (dr, dc)). f i j dr dc) ws = Some y \<Longrightarrow>
     \<exists>r c dr dc. ((r, c), (dr, dc)) \<in> set ws \<and> f r c dr dc = Some y"
  by (induction ws) (auto split: option.splits)

lemma firstSome_map_option:
  "map_option h (firstSome f xs) = firstSome (\<lambda>x. map_option h (f x)) xs"
  by (induction xs) (auto split: option.splits)

lemma set_rowOrigins: "set (rowOrigins N L) = {(i, j). 0 \<le> i \<and> i \<le> N - 1 \<and> 0 \<le> j \<and> j \<le> N - L}"
  by (auto simp: rowOrigins_def)
lemma set_colOrigins: "set (colOrigins N L) = {(i, j). 0 \<le> i \<and> i \<le> N - L \<and> 0 \<le> j \<and> j \<le> N - 1}"
  by (auto simp: colOrigins_def)
lemma set_diagOrigins: "set (diagOrigins N L) = {(i, j). 0 \<le> i \<and> i \<le> N - L \<and> 0 \<le> j \<and> j \<le> N - L}"
  by (auto simp: diagOrigins_def)
lemma set_antiOrigins: "set (antiOrigins N L) = {(i, j). 0 \<le> i \<and> i \<le> N - L \<and> L - 1 \<le> j \<and> j \<le> N - 1}"
  by (auto simp: antiOrigins_def)
lemma set_allCells: "set (allCells N) = {(i, j). 0 \<le> i \<and> i \<le> N - 1 \<and> 0 \<le> j \<and> j \<le> N - 1}"
  by (auto simp: allCells_def)

lemmas set_origins = set_rowOrigins set_colOrigins set_diagOrigins set_antiOrigins

lemma windows_inBounds:
  assumes "((r, c), (dr, dc)) \<in> set (windows N L)" "1 \<le> L"
  shows "inBounds N r c \<and> (dr, dc) \<in> set directions"
  using assms by (auto simp: windows_def set_origins inBounds_def directions_def)

lemma run_in_windows:
  assumes "runAt N L b p r c dr dc" "1 \<le> L" "(dr, dc) \<in> set directions"
  shows "((r, c), (dr, dc)) \<in> set (windows N L)"
proof -
  have k0: "inBounds N r c" and kl: "inBounds N (r + dr * (L - 1)) (c + dc * (L - 1))"
    using assms(1,2) by (auto simp: runAt_def list_all_iff dest: bspec[where x=0] bspec[where x="L - 1"])
  show ?thesis
    using assms(3) k0 kl
    by (auto simp: windows_def set_origins inBounds_def directions_def image_iff)
qed


lemma hasRun_iff:
  "hasRun N L b p \<longleftrightarrow>
     (\<exists>r c dr dc. inBounds N r c \<and> (dr, dc) \<in> set directions \<and> runAt N L b p r c dr dc)"
proof
  assume "hasRun N L b p"
  then obtain r c dr dc where "(r, c) \<in> set (allCells N)" "(dr, dc) \<in> set directions"
    "runAt N L b p r c dr dc"
    unfolding hasRun_def list_ex_iff by blast
  moreover from this have "inBounds N r c" by (simp add: set_allCells inBounds_def)
  ultimately show "\<exists>r c dr dc. inBounds N r c \<and> (dr, dc) \<in> set directions \<and> runAt N L b p r c dr dc"
    by blast
next
  assume "\<exists>r c dr dc. inBounds N r c \<and> (dr, dc) \<in> set directions \<and> runAt N L b p r c dr dc"
  then obtain r c dr dc where ib: "inBounds N r c" and d: "(dr, dc) \<in> set directions"
    and run: "runAt N L b p r c dr dc" by blast
  from ib have "(r, c) \<in> set (allCells N)" by (simp add: set_allCells inBounds_def)
  with d run show "hasRun N L b p"
    unfolding hasRun_def list_ex_iff by blast
qed

lemma checkWinnerForMinimax_SomeD:
  assumes "checkWinnerForMinimax N L b = Some w" "1 \<le> L"
  shows "hasRun N L b w"
proof -
  from firstSome_window_SomeD[OF assms(1)[unfolded checkWinnerForMinimax_def]]
  obtain r c dr dc where x: "((r, c), (dr, dc)) \<in> set (windows N L)"
    and fx: "checkSequenceM N L b r c dr dc = Some w" by blast
  have ib: "inBounds N r c" and d: "(dr, dc) \<in> set directions"
    using windows_inBounds[OF x assms(2)] by simp_all
  have "runAt N L b w r c dr dc"
    using fx checkSequenceM_iff[OF assms(2) ib] by simp
  with ib d show ?thesis unfolding hasRun_iff by blast
qed

lemma hasRun_checkWinnerForMinimax:
  assumes "hasRun N L b p" "1 \<le> L"
  shows "\<exists>w. checkWinnerForMinimax N L b = Some w"
proof -
  from assms(1) obtain r c dr dc where ib: "inBounds N r c" and d: "(dr, dc) \<in> set directions"
    and run: "runAt N L b p r c dr dc" unfolding hasRun_iff by blast
  have mem: "((r, c), (dr, dc)) \<in> set (windows N L)"
    by (rule run_in_windows[OF run assms(2) d])
  have "checkSequenceM N L b r c dr dc = Some p"
    using run checkSequenceM_iff[OF assms(2) ib] by simp
  then have "checkWinnerForMinimax N L b \<noteq> None"
    unfolding checkWinnerForMinimax_def
    by (intro firstSome_mem_not_None[OF mem]) simp
  then show ?thesis by auto
qed

lemma winningSequence_fst:
  "map_option fst (winningSequence N L b) = checkWinnerForMinimax N L b"
  unfolding winningSequence_def checkWinnerForMinimax_def firstSome_map_option
  by (simp add: case_prod_unfold checkSequence_fst)

lemma winningSequence_SomeD:
  assumes "winningSequence N L b = Some (w, cells)"
  shows "\<exists>r c dr dc. ((r, c), (dr, dc)) \<in> set (windows N L) \<and>
           cells = map (\<lambda>k. (r + dr * k, c + dc * k)) [0 .. L - 1] \<and>
           checkSequenceM N L b r c dr dc = Some w"
proof -
  from firstSome_window_SomeD[OF assms[unfolded winningSequence_def]]
  obtain r c dr dc where x: "((r, c), (dr, dc)) \<in> set (windows N L)"
    and fx: "checkSequence N L b r c dr dc = Some (w, cells)" by blast
  from checkSequence_cells[OF fx] x show ?thesis by blast
qed

lemma find_SomeD: "find P xs = Some x \<Longrightarrow> P x \<and> x \<in> set xs"
  by (induction xs) (auto split: if_splits)

lemma firstSome_find_window:
  assumes "\<And>r c dr dc. ((r, c), (dr, dc)) \<in> set ws \<Longrightarrow> (f r c dr dc \<noteq> None) = P r c dr dc"
  shows "firstSome (\<lambda>((r, c), (dr, dc)). f r c dr dc) ws =
           (case find (\<lambda>((r, c), (dr, dc)). P r c dr dc) ws of None \<Rightarrow> None
            | Some ((r, c), (dr, dc)) \<Rightarrow> f r c dr dc)"
  using assms
proof (induction ws)
  case Nil
  then show ?case by simp
next
  case (Cons x ws)
  obtain r c dr dc where x: "x = ((r, c), (dr, dc))" by (metis surj_pair)
  have px: "(f r c dr dc \<noteq> None) = P r c dr dc" using Cons.prems[of r c dr dc] by (simp add: x)
  have ih: "firstSome (\<lambda>((r, c), (dr, dc)). f r c dr dc) ws =
           (case find (\<lambda>((r, c), (dr, dc)). P r c dr dc) ws of None \<Rightarrow> None
            | Some ((r, c), (dr, dc)) \<Rightarrow> f r c dr dc)"
    by (rule Cons.IH) (rule Cons.prems, simp)
  show ?case
  proof (cases "f r c dr dc")
    case None
    with px have "\<not> P r c dr dc" by simp
    with None ih show ?thesis by (simp add: x)
  next
    case (Some y)
    with px have "P r c dr dc" by simp
    with Some show ?thesis by (simp add: x)
  qed
qed

lemma player_exhaust: "(\<exists>q. Q q) \<longleftrightarrow> Q PX \<or> Q PO"
proof
  assume "\<exists>q. Q q"
  then obtain q where "Q q" by blast
  then show "Q PX \<or> Q PO" by (cases q) simp_all
qed blast

lemma checkSequence_window_iff:
  assumes "((r, c), (dr, dc)) \<in> set (windows N L)" "1 \<le> L"
  shows "(checkSequence N L b r c dr dc \<noteq> None) =
         (runAt N L b PX r c dr dc \<or> runAt N L b PO r c dr dc)"
proof -
  have ib: "inBounds N r c" using windows_inBounds[OF assms] by simp
  have "(checkSequence N L b r c dr dc \<noteq> None) = (checkSequenceM N L b r c dr dc \<noteq> None)"
    unfolding checkSequence_fst[symmetric] by simp
  also have "\<dots> = (\<exists>q. checkSequenceM N L b r c dr dc = Some q)" by auto
  also have "\<dots> = (\<exists>q. runAt N L b q r c dr dc)"
    using checkSequenceM_iff[OF assms(2) ib] by simp
  also have "\<dots> = (runAt N L b PX r c dr dc \<or> runAt N L b PO r c dr dc)"
    by (rule player_exhaust)
  finally show ?thesis .
qed

lemma winningSequence_firstRun:
  assumes "1 \<le> L"
  shows "winningSequence N L b =
           (case firstRun N L b of None \<Rightarrow> None
            | Some ((r, c), (dr, dc)) \<Rightarrow> checkSequence N L b r c dr dc)"
  unfolding winningSequence_def firstRun_def
  by (rule firstSome_find_window) (rule checkSequence_window_iff[OF _ assms])

lemma winningSequence_first:
  assumes "winningSequence N L b = Some (w, cells)" "1 \<le> L"
  shows "\<exists>r c dr dc. firstRun N L b = Some ((r, c), (dr, dc)) \<and> runAt N L b w r c dr dc \<and>
           cells = runCells L r c dr dc \<and> hasRun N L b w"
proof -
  from assms(1) winningSequence_firstRun[OF assms(2), of N b]
  obtain x where fr: "firstRun N L b = Some x"
    and cs: "(case x of ((r, c), (dr, dc)) \<Rightarrow> checkSequence N L b r c dr dc) = Some (w, cells)"
    by (cases "firstRun N L b") simp_all
  obtain r c dr dc where x: "x = ((r, c), (dr, dc))" by (metis surj_pair)
  from cs have cs': "checkSequence N L b r c dr dc = Some (w, cells)" by (simp add: x)
  have mem: "((r, c), (dr, dc)) \<in> set (windows N L)"
    using find_SomeD[OF fr[unfolded firstRun_def]] by (simp add: x)
  have ib: "inBounds N r c" and d: "(dr, dc) \<in> set directions"
    using windows_inBounds[OF mem assms(2)] by simp_all
  from checkSequence_cells[OF cs']
  have cells: "cells = runCells L r c dr dc" and m: "checkSequenceM N L b r c dr dc = Some w"
    by (simp_all add: runCells_def)
  have run: "runAt N L b w r c dr dc" using m checkSequenceM_iff[OF assms(2) ib] by simp
  have "hasRun N L b w" unfolding hasRun_iff using ib d run by blast
  with fr x run cells show ?thesis by blast
qed

lemma length_runCells: "1 \<le> L \<Longrightarrow> length (runCells L r c dr dc) = nat L"
  by (simp add: runCells_def)

lemma player_cases: "w = p \<or> w = opponentOf p"
  by (cases w; cases p) (simp_all add: opponentOf_def)

text \<open>
  Claim C1, as the code has it.  On a well-formed board with run-length \<open>L \<ge> 1\<close> that
  contains a complete run of \<open>L\<close> marks of player \<open>p\<close> in one of the four directions,
  \<open>checkWinner\<close> reports a win.  There is a first complete run in scan order (rows,
  columns, down-right diagonals, down-left diagonals), with origin \<open>(r, c)\<close>, direction
  \<open>(dr, dc)\<close> and mark \<open>w\<close>; \<open>checkWinner\<close> returns \<open>w\<close>, and the coordinate sequence it
  hands to \<open>highlightWinningCells\<close> is that of this run from its origin on,
  \<open>(r, c), (r + dr, c + dc), \<dots>\<close>, of length exactly \<open>L\<close>.  The mark \<open>w\<close> is \<open>p\<close> whenever
  the other player has no complete run.  The value returned by \<open>checkWinner\<close> is the mark
  alone.  (A board with a run of \<open>L \<ge> 1\<close> cells on it has \<open>L \<le> N\<close>.)
\<close>

theorem checkWinner_detects_run:
  assumes "wfBoard (boardSize g) (gameBoard g)"
    and "1 \<le> winLength g"
    and "hasRun (boardSize g) (winLength g) (gameBoard g) p"
  shows "\<exists>w r c dr dc.
           firstRun (boardSize g) (winLength g) (gameBoard g) = Some ((r, c), (dr, dc)) \<and>
           runAt (boardSize g) (winLength g) (gameBoard g) w r c dr dc \<and>
           checkWinner g =
             (Some w, g\<lparr> highlighted := highlighted g @ runCells (winLength g) r c dr dc \<rparr>) \<and>
           length (runCells (winLength g) r c dr dc) = nat (winLength g) \<and>
           (\<not> hasRun (boardSize g) (winLength g) (gameBoard g) (opponentOf p) \<longrightarrow> w = p)"
proof -
  let ?N = "boardSize g" and ?L = "winLength g" and ?b = "gameBoard g"
  from hasRun_checkWinnerForMinimax[OF assms(3,2)]
  obtain w where "checkWinnerForMinimax ?N ?L ?b = Some w" by blast
  then obtain cells where ws: "winningSequence ?N ?L ?b = Some (w, cells)"
    using winningSequence_fst[of ?N ?L ?b] by (cases "winningSequence ?N ?L ?b") auto
  from winningSequence_first[OF ws assms(2)]
  obtain r c dr dc where fr: "firstRun ?N ?L ?b = Some ((r, c), (dr, dc))"
    and run: "runAt ?N ?L ?b w r c dr dc"
    and cells: "cells = runCells ?L r c dr dc"
    and hr: "hasRun ?N ?L ?b w" by blast
  have "checkWinner g = (Some w, g\<lparr> highlighted := highlighted g @ runCells ?L r c dr dc \<rparr>)"
    by (simp add: checkWinner_def ws cells)
  moreover have "\<not> hasRun ?N ?L ?b (opponentOf p) \<longrightarrow> w = p"
    using hr player_cases[of w p] by auto
  ultimately show ?thesis using fr run length_runCells[OF assms(2)] by blast
qed

theorem checkWinner_detects_run_witness:
  "wfBoard 3 [[Some PX, Some PX, Some PX], [Some PX, Some PO, Some PO], [Some PX, Some PO, Some PO]] \<and>
   (1::int) \<le> 3 \<and>
   hasRun 3 3 [[Some PX, Some PX, Some PX], [Some PX, Some PO, Some PO], [Some PX, Some PO, Some PO]] PX \<and>
   \<not> hasRun 3 3 [[Some PX, Some PX, Some PX], [Some PX, Some PO, Some PO], [Some PX, Some PO, Some PO]] PO \<and>
   firstRun 3 3 [[Some PX, Some PX, Some PX], [Some PX, Some PO, Some PO], [Some PX, Some PO, Some PO]]
     = Some ((0, 0), (0, 1)) \<and>
   checkWinner (initialGlobals\<lparr> gameBoard :=
          [[Some PX, Some PX, Some PX], [Some PX, Some PO, Some PO], [Some PX, Some PO, Some PO]] \<rparr>)
     = (Some PX, initialGlobals\<lparr> gameBoard :=
          [[Some PX, Some PX, Some PX], [Some PX, Some PO, Some PO], [Some PX, Some PO, Some PO]],
          highlighted := [(0, 0), (0, 1), (0, 2)] \<rparr>)"
proof -
  let ?b = "[[Some PX, Some PX, Some PX], [Some PX, Some PO, Some PO], [Some PX, Some PO, Some PO]]"
  let ?g = "initialGlobals\<lparr> gameBoard := ?b \<rparr>"
  have wf: "wfBoard (boardSize ?g) (gameBoard ?g)" by code_simp
  have l: "1 \<le> winLength ?g" by code_simp
  have hr: "hasRun (boardSize ?g) (winLength ?g) (gameBoard ?g) PX" by code_simp
  have no: "\<not> hasRun (boardSize ?g) (winLength ?g) (gameBoard ?g) (opponentOf PX)" by code_simp
  have fr: "firstRun (boardSize ?g) (winLength ?g) (gameBoard ?g) = Some ((0, 0), (0, 1))"
    by code_simp
  have rc: "runCells (winLength ?g) 0 0 0 1 = [(0, 0), (0, 1), (0, 2)]" by code_simp
  have h0: "highlighted ?g = []" by (simp add: initialGlobals_def)
  from checkWinner_detects_run[OF wf l hr] no
  obtain r c dr dc where
    "firstRun (boardSize ?g) (winLength ?g) (gameBoard ?g) = Some ((r, c), (dr, dc))"
    and cw: "checkWinner ?g =
       (Some PX, ?g\<lparr> highlighted := highlighted ?g @ runCells (winLength ?g) r c dr dc \<rparr>)"
    by blast
  with fr have "r = 0" "c = 0" "dr = 0" "dc = 1" by simp_all
  with cw rc h0 have "checkWinner ?g = (Some PX, ?g\<lparr> highlighted := [(0, 0), (0, 1), (0, 2)] \<rparr>)"
    by simp
  moreover have "wfBoard 3 ?b" "hasRun 3 3 ?b PX" "\<not> hasRun 3 3 ?b PO" "firstRun 3 3 ?b = Some ((0, 0), (0, 1))"
    by code_simp+
  ultimately show ?thesis by simp
qed

text \<open>
  Claim C1 as stated fails in its last clause: \<open>checkWinner\<close> does not return the winning
  sequence.  In the two positions below, each reached by five alternating moves from the
  empty 3x3 board, the winning sequences differ (the top row, the left column) and the
  value returned by \<open>checkWinner\<close> is the same, the symbol \<open>X\<close>; the sequence goes to
  \<open>highlightWinningCells\<close> only.
\<close>

theorem checkWinner_returns_symbol_counterexample:
  "gameBoard rowWinPosition = [[Some PX, Some PX, Some PX], [None, Some PO, None], [None, None, Some PO]] \<and>
   gameBoard columnWinPosition = [[Some PX, None, None], [Some PX, Some PO, None], [Some PX, None, Some PO]] \<and>
   fst (checkWinner rowWinPosition) = Some PX \<and>
   fst (checkWinner columnWinPosition) = Some PX \<and>
   highlighted (snd (checkWinner rowWinPosition)) = [(0, 0), (0, 1), (0, 2)] \<and>
   highlighted (snd (checkWinner columnWinPosition)) = [(0, 0), (1, 0), (2, 0)]"
  by code_simp

text \<open>
  Claim C2.  On a well-formed board with run-length \<open>L \<ge> 1\<close> on which neither player has
  a run of length \<open>L\<close> in any of the four directions, \<open>checkWinner\<close> returns null (and
  highlights nothing) and \<open>checkWinnerForMinimax\<close> returns null.
\<close>

theorem no_run_no_win:
  assumes "wfBoard (boardSize g) (gameBoard g)"
    and "1 \<le> winLength g"
    and "\<not> hasRun (boardSize g) (winLength g) (gameBoard g) PX"
    and "\<not> hasRun (boardSize g) (winLength g) (gameBoard g) PO"
  shows "checkWinner g = (None, g) \<and>
         checkWinnerForMinimax (boardSize g) (winLength g) (gameBoard g) = None"
proof -
  let ?N = "boardSize g" and ?L = "winLength g" and ?b = "gameBoard g"
  have m: "checkWinnerForMinimax ?N ?L ?b = None"
  proof (cases "checkWinnerForMinimax ?N ?L ?b")
    case (Some w)
    from checkWinnerForMinimax_SomeD[OF Some assms(2)] assms(3,4)
    show ?thesis by (cases w) simp_all
  qed simp
  then have "winningSequence ?N ?L ?b = None"
    using winningSequence_fst[of ?N ?L ?b] by simp
  then show ?thesis using m by (simp add: checkWinner_def)
qed


theorem no_run_no_win_witness:
  "wfBoard 3 [[Some PX, Some PO, Some PX], [Some PX, Some PO, Some PO], [Some PO, Some PX, Some PX]] \<and>
   \<not> hasRun 3 3 [[Some PX, Some PO, Some PX], [Some PX, Some PO, Some PO], [Some PO, Some PX, Some PX]] PX \<and>
   \<not> hasRun 3 3 [[Some PX, Some PO, Some PX], [Some PX, Some PO, Some PO], [Some PO, Some PX, Some PX]] PO \<and>
   fst (checkWinner (initialGlobals\<lparr> gameBoard :=
      [[Some PX, Some PO, Some PX], [Some PX, Some PO, Some PO], [Some PO, Some PX, Some PX]] \<rparr>)) = None \<and>
   checkWinnerForMinimax 3 3
      [[Some PX, Some PO, Some PX], [Some PX, Some PO, Some PO], [Some PO, Some PX, Some PX]] = None"
proof -
  let ?b = "[[Some PX, Some PO, Some PX], [Some PX, Some PO, Some PO], [Some PO, Some PX, Some PX]]"
  let ?g = "initialGlobals\<lparr> gameBoard := ?b \<rparr>"
  have wf: "wfBoard (boardSize ?g) (gameBoard ?g)"
    by code_simp
  have l: "1 \<le> winLength ?g" by code_simp
  have nx: "\<not> hasRun (boardSize ?g) (winLength ?g) (gameBoard ?g) PX"
    by code_simp
  have no: "\<not> hasRun (boardSize ?g) (winLength ?g) (gameBoard ?g) PO"
    by code_simp
  from no_run_no_win[OF wf l nx no] wf nx no
  show ?thesis by (simp add: initialGlobals_def)
qed

section \<open>Properties of session creation\<close>

text \<open>
  Claim C9, as the code has it.  \<open>initGame\<close> validates nothing: for every size \<open>sz \<ge> 0\<close>,
  sizes below 3 included, it creates a session with an all-empty \<open>sz \<times> sz\<close> board,
  \<open>X\<close> to move and the game active, and derives the run-length 3 if \<open>sz \<le> 6\<close> and 4
  otherwise.
\<close>

theorem initGame_creates_session:
  assumes "0 \<le> sz"
  shows "initGame sz mode g =
           (None, g\<lparr> boardSize := sz, gameMode := mode, currentPlayer := PX, gameActive := True,
                      winLength := (if sz \<le> 6 then 3 else 4),
                      gameBoard := replicate (nat sz) (replicate (nat sz) None),
                      highlighted := [], statusText := TurnOf PX \<rparr>)
         \<and> wfBoard sz (replicate (nat sz) (replicate (nat sz) None))"
  using assms by (auto simp: initGame_def Let_def wfBoard_def list_all_iff)

theorem initGame_creates_session_witness:
  "(0::int) \<le> 8 \<and> fst (initGame 8 ''ai'' initialGlobals) = None \<and>
   winLength (snd (initGame 8 ''ai'' initialGlobals)) = 4 \<and>
   boardSize (snd (initGame 8 ''ai'' initialGlobals)) = 8"
  using initGame_creates_session[of 8 "''ai''" initialGlobals] by simp

text \<open>Claim C9 as stated fails: size 2 is not rejected, a session is created.\<close>

theorem initGame_small_size_counterexample:
  "initGame 2 ''human'' initialGlobals =
     (None, \<lparr> boardSize = 2, gameMode = ''human'', currentPlayer = PX,
              gameBoard = [[None, None], [None, None]], gameActive = True, aiPlayer = PO,
              winLength = 3, statusText = TurnOf PX, highlighted = [], aiTimers = 0 \<rparr>)"
  by (simp add: initGame_def initialGlobals_def numeral_2_eq_2)

section \<open>Properties of the array reads\<close>

lemma wfBoard_row: "wfBoard N b \<Longrightarrow> 0 \<le> r \<Longrightarrow> r < N \<Longrightarrow> length (b ! nat r) = nat N"
  by (auto simp: wfBoard_def list_all_iff)

lemma readCell_wf:
  assumes "wfBoard N b" "inBounds N r c"
  shows "readCell b r c = Inr (cellAt b r c)"
proof -
  from assms(2) have r: "0 \<le> r" "r < N" and c: "0 \<le> c" "c < N"
    by (auto simp: inBounds_def)
  have "length b = nat N" using assms(1) by (simp add: wfBoard_def)
  moreover have "length (b ! nat r) = nat N" by (rule wfBoard_row[OF assms(1) r])
  ultimately show ?thesis using r c by (simp add: readCell_def cellAt_def)
qed

lemma seqLoopR_wf:
  assumes "wfBoard N b"
  shows "seqLoopR N b r c dr dc first ks = Inr (seqLoop N b r c dr dc first ks)"
proof (induction ks)
  case Nil
  show ?case by simp
next
  case (Cons k ks)
  show ?case
  proof (cases "inBounds N (r + dr * k) (c + dc * k)")
    case True
    from readCell_wf[OF assms True] Cons True show ?thesis
      by (simp add: Let_def inBounds_def)
  next
    case False
    then show ?thesis by (auto simp: Let_def inBounds_def)
  qed
qed

lemma checkSequenceMR_wf:
  assumes "wfBoard N b" "inBounds N r c"
  shows "checkSequenceMR N L b r c dr dc = Inr (checkSequenceM N L b r c dr dc)"
  by (simp add: checkSequenceMR_def checkSequenceM_def readCell_wf[OF assms]
        seqLoopR_wf[OF assms(1)] split: option.splits)

lemma checkSequenceR_wf:
  assumes "wfBoard N b" "inBounds N r c"
  shows "checkSequenceR N L b r c dr dc = Inr (checkSequence N L b r c dr dc)"
  by (simp add: checkSequenceR_def checkSequence_def readCell_wf[OF assms]
        seqLoopR_wf[OF assms(1)] split: option.splits)

lemma firstSomeR_window:
  assumes "\<And>r c dr dc. ((r, c), (dr, dc)) \<in> set ws \<Longrightarrow> f r c dr dc = Inr (g r c dr dc)"
  shows "firstSomeR (\<lambda>((i, j), (dr, dc)). f i j dr dc) ws
           = Inr (firstSome (\<lambda>((i, j), (dr, dc)). g i j dr dc) ws)"
  using assms
proof (induction ws)
  case Nil
  show ?case by simp
next
  case (Cons w ws)
  obtain r c dr dc where w: "w = ((r, c), (dr, dc))" by (metis surj_pair)
  have "f r c dr dc = Inr (g r c dr dc)" using Cons.prems[of r c dr dc] by (simp add: w)
  moreover have "firstSomeR (\<lambda>((i, j), (dr, dc)). f i j dr dc) ws
           = Inr (firstSome (\<lambda>((i, j), (dr, dc)). g i j dr dc) ws)"
    using Cons.prems by (intro Cons.IH) simp
  ultimately show ?case by (simp add: w split: option.splits)
qed

lemma windows_empty: "1 \<le> L \<Longrightarrow> N < L \<Longrightarrow> windows N L = []"
  by (simp add: windows_def rowOrigins_def colOrigins_def diagOrigins_def antiOrigins_def)

text \<open>
  Claim C10.  On a well-formed board of any size \<open>N\<close> and for every win-length the
  program can have, \<open>L \<ge> 1\<close> (\<open>initGame\<close> sets 3 or 4), also \<open>L > N\<close>, \<open>checkWinner\<close> and
  \<open>checkWinnerForMinimax\<close> read cells of the board only and return normally: the
  detectors with checked reads return no fault and the results of the functions above;
  for \<open>L > N\<close> they report no win.
\<close>

theorem detectors_read_in_bounds:
  assumes "wfBoard N b" and "1 \<le> L"
  shows "checkWinnerForMinimaxR N L b = Inr (checkWinnerForMinimax N L b) \<and>
         winningSequenceR N L b = Inr (winningSequence N L b) \<and>
         (N < L \<longrightarrow> checkWinnerForMinimax N L b = None \<and> winningSequence N L b = None)"
proof -
  have ib: "inBounds N r c" if "((r, c), (dr, dc)) \<in> set (windows N L)" for r c dr dc
    using windows_inBounds[OF that assms(2)] by simp
  have "checkWinnerForMinimaxR N L b = Inr (checkWinnerForMinimax N L b)"
    unfolding checkWinnerForMinimaxR_def checkWinnerForMinimax_def
    by (rule firstSomeR_window) (rule checkSequenceMR_wf[OF assms(1) ib])
  moreover have "winningSequenceR N L b = Inr (winningSequence N L b)"
    unfolding winningSequenceR_def winningSequence_def
    by (rule firstSomeR_window) (rule checkSequenceR_wf[OF assms(1) ib])
  moreover have "N < L \<longrightarrow> checkWinnerForMinimax N L b = None \<and> winningSequence N L b = None"
    using windows_empty[OF assms(2)]
    by (simp add: checkWinnerForMinimax_def winningSequence_def)
  ultimately show ?thesis by simp
qed

theorem detectors_read_in_bounds_witness:
  "wfBoard 3 [[Some PX, None, Some PO], [None, Some PX, Some PO], [None, None, Some PX]] \<and>
   (1::int) \<le> 3 \<and>
   checkWinnerForMinimaxR 3 3 [[Some PX, None, Some PO], [None, Some PX, Some PO], [None, None, Some PX]]
     = Inr (Some PX) \<and>
   winningSequenceR 3 3 [[Some PX, None, Some PO], [None, Some PX, Some PO], [None, None, Some PX]]
     = Inr (Some (PX, [(0, 0), (1, 1), (2, 2)])) \<and>
   wfBoard 2 [[Some PX, None], [None, Some PX]] \<and> (2::int) < 3 \<and>
   checkWinnerForMinimaxR 2 3 [[Some PX, None], [None, Some PX]] = Inr None \<and>
   winningSequenceR 2 3 [[Some PX, None], [None, Some PX]] = Inr None"
proof -
  let ?b = "[[Some PX, None, Some PO], [None, Some PX, Some PO], [None, None, Some PX]]"
  have wf3: "wfBoard 3 ?b" by code_simp
  have wf2: "wfBoard 2 [[Some PX, None], [None, Some PX]]" by code_simp
  have m: "checkWinnerForMinimax 3 3 ?b = Some PX" by code_simp
  have w: "winningSequence 3 3 ?b = Some (PX, [(0, 0), (1, 1), (2, 2)])" by code_simp
  from detectors_read_in_bounds[OF wf3, of 3] m w
  have "checkWinnerForMinimaxR 3 3 ?b = Inr (Some PX)"
    "winningSequenceR 3 3 ?b = Inr (Some (PX, [(0, 0), (1, 1), (2, 2)]))" by simp_all
  moreover from detectors_read_in_bounds[OF wf2, of 3]
  have "checkWinnerForMinimaxR 2 3 [[Some PX, None], [None, Some PX]] = Inr None"
    "winningSequenceR 2 3 [[Some PX, None], [None, Some PX]] = Inr None" by simp_all
  ultimately show ?thesis using wf3 wf2 by simp
qed

section \<open>Properties of the heuristic evaluation\<close>

lemma opponentOf_neq: "opponentOf p \<noteq> p"
  by (simp add: opponentOf_def)

lemma scoreLoop_counts:
  assumes "\<forall>k \<in> set ks. inBounds N (r + dr * k) (c + dc * k)"
  shows "scoreLoop N ai b r c dr dc countAI countOpp ks =
           Some (countAI + length (filter (\<lambda>v. v = Some ai) (map (\<lambda>k. cellAt b (r + dr * k) (c + dc * k)) ks)),
                 countOpp + length (filter (\<lambda>v. v = Some (opponentOf ai)) (map (\<lambda>k. cellAt b (r + dr * k) (c + dc * k)) ks)))"
  using assms
proof (induction ks arbitrary: countAI countOpp)
  case Nil
  show ?case by simp
next
  case (Cons k ks)
  from Cons.prems have ib: "inBounds N (r + dr * k) (c + dc * k)"
    and rest: "\<forall>k \<in> set ks. inBounds N (r + dr * k) (c + dc * k)" by simp_all
  note IH = Cons.IH[OF rest]
  from ib have g: "\<not> (r + dr * k < 0 \<or> r + dr * k \<ge> N \<or> c + dc * k < 0 \<or> c + dc * k \<ge> N)"
    by (simp add: inBounds_def)
  show ?case
    using opponentOf_neq[of ai] by (simp add: Let_def g IH del: scoreLoop.simps(2) add: scoreLoop.simps(2)[unfolded Let_def])
qed

lemma window_cells_inBounds:
  assumes "((r, c), (dr, dc)) \<in> set (windows N L)" "0 \<le> k" "k \<le> L - 1"
  shows "inBounds N (r + dr * k) (c + dc * k)"
  using assms
  by (auto simp: windows_def rowOrigins_def colOrigins_def diagOrigins_def antiOrigins_def inBounds_def)

lemma scoreSequence_windowScore:
  assumes "((r, c), (dr, dc)) \<in> set (windows N L)"
  shows "scoreSequence N L ai b r c dr dc = windowScore ai (windowCells L b r c dr dc)"
proof -
  have "\<forall>k \<in> set [0 .. L - 1]. inBounds N (r + dr * k) (c + dc * k)"
    using window_cells_inBounds[OF assms] by simp
  from scoreLoop_counts[OF this, of ai b 0 0]
  show ?thesis
    by (simp add: scoreSequence_def windowScore_def windowCells_def Let_def)
qed

lemma foldl_add_sum_list:
  "foldl (\<lambda>score x. score + f x) a xs = a + sum_list (map f xs)"
  for a :: int
  by (induction xs arbitrary: a) simp_all

text \<open>
  Claim C8.  On a well-formed board, \<open>evaluateBoard\<close> is the sum, over all windows in the
  scan order of win detection, of the window score of the specification.
\<close>

theorem evaluateBoard_is_window_sum:
  assumes "wfBoard N b"
  shows "evaluateBoard N L ai b = evaluateSpec N L ai b"
proof -
  have "evaluateBoard N L ai b =
          sum_list (map (\<lambda>((i, j), (dr, dc)). scoreSequence N L ai b i j dr dc) (windows N L))"
    unfolding evaluateBoard_def
    using foldl_add_sum_list[of "\<lambda>((i, j), (dr, dc)). scoreSequence N L ai b i j dr dc" 0 "windows N L"]
    by (simp add: case_prod_unfold)
  also have "\<dots> = evaluateSpec N L ai b"
    unfolding evaluateSpec_def
    by (rule arg_cong[where f = sum_list], rule map_cong[OF refl])
       (auto simp: scoreSequence_windowScore)
  finally show ?thesis .
qed

theorem evaluateBoard_is_window_sum_witness:
  "wfBoard 3 [[Some PO, None, Some PX], [None, Some PO, None], [None, None, None]] \<and>
   evaluateBoard 3 3 PO [[Some PO, None, Some PX], [None, Some PO, None], [None, None, None]] =
   evaluateSpec 3 3 PO [[Some PO, None, Some PX], [None, Some PO, None], [None, None, None]] \<and>
   evaluateBoard 3 3 PO [[Some PO, None, Some PX], [None, Some PO, None], [None, None, None]] = 120"
proof -
  have wf: "wfBoard 3 [[Some PO, None, Some PX], [None, Some PO, None], [None, None, None]]"
    by code_simp
  have v: "evaluateSpec 3 3 PO [[Some PO, None, Some PX], [None, Some PO, None], [None, None, None]] = 120"
    by code_simp
  from evaluateBoard_is_window_sum[OF wf, of 3 PO] wf v show ?thesis by simp
qed

section \<open>The board after speculative evaluation\<close>

lemma setCell_restore:
  assumes "cellAt b i j = None"
  shows "setCell (setCell b i j v) i j None = b"
proof (cases "nat i < length b")
  case True
  have "(b ! nat i)[nat j := None] = b ! nat i"
    using assms by (metis cellAt_def list_update_id list_update_beyond linorder_not_less)
  with True show ?thesis by (simp add: setCell_def)
next
  case False
  then have "length b \<le> nat i" by simp
  then show ?thesis by (simp add: setCell_def list_update_beyond)
qed

lemma minimax_restores:
  shows "fst (minimax N L ai board depth isMaximizing alpha beta maxDepth) = board"
    and "fst (maxLoop N L ai board depth alpha beta maxDepth bestScore cells) = board"
    and "fst (minLoop N L ai board depth alpha beta maxDepth bestScore cells) = board"
proof (induction N L ai board depth isMaximizing alpha beta maxDepth
         and N L ai board depth alpha beta maxDepth bestScore cells
         and N L ai board depth alpha beta maxDepth bestScore cells
       rule: minimax_maxLoop_minLoop.induct)
  case (1 N L ai board depth isMaximizing alpha beta maxDepth)
  then show ?case by (simp add: minimax.simps(1) Let_def)
next
  case (2 N L ai board depth alpha beta maxDepth bestScore)
  show ?case by simp
next
  case (3 N L ai board depth alpha beta maxDepth bestScore i j rest)
  show ?case
  proof (cases "cellAt board i j = None")
    case True
    obtain board1 score where m: "minimax N L ai (setCell board i j (Some ai)) (depth + 1) False alpha beta maxDepth = (board1, score)"
      by (cases "minimax N L ai (setCell board i j (Some ai)) (depth + 1) False alpha beta maxDepth")
    from "3.IH"(1)[OF True] m have b1: "board1 = setCell board i j (Some ai)" by simp
    have b2: "setCell board1 i j None = board" unfolding b1 by (rule setCell_restore[OF True])
    show ?thesis
    proof (cases "beta \<le> max alpha score")
      case True
      with \<open>cellAt board i j = None\<close> m b2 show ?thesis by simp
    next
      case False
      from "3.IH"(2)[OF \<open>cellAt board i j = None\<close> m[symmetric] refl refl refl refl False]
      show ?thesis using \<open>cellAt board i j = None\<close> m b2 False by simp
    qed
  next
    case False
    from "3.IH"(3)[OF False] show ?thesis by (simp add: False)
  qed
next
  case (4 N L ai board depth alpha beta maxDepth bestScore)
  show ?case by simp
next
  case (5 N L ai board depth alpha beta maxDepth bestScore i j rest)
  show ?case
  proof (cases "cellAt board i j = None")
    case True
    obtain board1 score where m: "minimax N L ai (setCell board i j (Some (opponentOf ai))) (depth + 1) True alpha beta maxDepth = (board1, score)"
      by (cases "minimax N L ai (setCell board i j (Some (opponentOf ai))) (depth + 1) True alpha beta maxDepth")
    from "5.IH"(1)[OF True] m have b1: "board1 = setCell board i j (Some (opponentOf ai))" by simp
    have b2: "setCell board1 i j None = board" unfolding b1 by (rule setCell_restore[OF True])
    show ?thesis
    proof (cases "min beta score \<le> alpha")
      case True
      with \<open>cellAt board i j = None\<close> m b2 show ?thesis by simp
    next
      case False
      from "5.IH"(2)[OF \<open>cellAt board i j = None\<close> m[symmetric] refl refl refl refl False]
      show ?thesis using \<open>cellAt board i j = None\<close> m b2 False by simp
    qed
  next
    case False
    from "5.IH"(3)[OF False] show ?thesis by (simp add: False)
  qed
qed

lemma bestMoveLoop_restores:
  "fst (bestMoveLoop N L ai board maxDepth bestScore bestMove cells) = board"
proof (induction cells arbitrary: bestScore bestMove)
  case Nil
  show ?case by simp
next
  case (Cons x cells)
  obtain i j where x: "x = (i, j)" by (cases x)
  show ?case
  proof (cases "cellAt board i j = None")
    case True
    obtain board1 score where m: "minimax N L ai (setCell board i j (Some ai)) 0 False NegInfinity Infinity maxDepth = (board1, score)"
      by (cases "minimax N L ai (setCell board i j (Some ai)) 0 False NegInfinity Infinity maxDepth")
    from minimax_restores(1)[of N L ai "setCell board i j (Some ai)" 0 False NegInfinity Infinity maxDepth] m
    have "board1 = setCell board i j (Some ai)" by simp
    then have "setCell board1 i j None = board" by (simp add: setCell_restore[OF True])
    with True m Cons.IH show ?thesis by (simp add: x)
  next
    case False
    from Cons.IH show ?thesis by (simp add: x False)
  qed
qed

lemma winningMoveLoop_restores:
  "fst (winningMoveLoop N L player board cells) = board"
proof (induction cells)
  case Nil
  show ?case by simp
next
  case (Cons x cells)
  obtain i j where x: "x = (i, j)" by (cases x)
  show ?case
  proof (cases "cellAt board i j = None")
    case True
    with Cons.IH show ?thesis by (simp add: x Let_def setCell_restore[OF True])
  next
    case False
    from Cons.IH show ?thesis by (simp add: x False)
  qed
qed

text \<open>
  Claim C3.  \<open>minimax\<close> (every recursive step places a mark, recurses and retracts it),
  \<open>findBestMove\<close> and \<open>findWinningMove\<close> return with the board equal to the board they
  were called on, on every return path, the two pruning exits included.
\<close>

theorem speculation_restores_board:
  assumes "wfBoard (boardSize g) (gameBoard g)"
  shows "fst (minimax (boardSize g) (winLength g) (aiPlayer g) (gameBoard g)
                depth isMaximizing alpha beta maxDepth) = gameBoard g \<and>
         snd (findBestMove g) = g \<and>
         snd (findWinningMove player g) = g"
proof -
  have "snd (findBestMove g) = g"
    using bestMoveLoop_restores[of "boardSize g" "winLength g" "aiPlayer g" "gameBoard g"
        "maxDepthFor (boardSize g)" NegInfinity None "allCells (boardSize g)"]
    by (simp add: findBestMove_def case_prod_unfold)
  moreover have "snd (findWinningMove player g) = g"
    using winningMoveLoop_restores[of "boardSize g" "winLength g" player "gameBoard g"
        "allCells (boardSize g)"]
    by (simp add: findWinningMove_def case_prod_unfold)
  ultimately show ?thesis by (simp add: minimax_restores(1))
qed

theorem speculation_restores_board_witness:
  "wfBoard 3 [[Some PX, None, Some PO], [None, Some PX, None], [None, None, None]] \<and>
   fst (minimax 3 3 PO [[Some PX, None, Some PO], [None, Some PX, None], [None, None, None]]
          0 True NegInfinity Infinity 9)
     = [[Some PX, None, Some PO], [None, Some PX, None], [None, None, None]] \<and>
   snd (findBestMove (initialGlobals\<lparr> gameBoard :=
          [[Some PX, None, Some PO], [None, Some PX, None], [None, None, None]] \<rparr>))
     = initialGlobals\<lparr> gameBoard :=
          [[Some PX, None, Some PO], [None, Some PX, None], [None, None, None]] \<rparr> \<and>
   snd (findWinningMove PX (initialGlobals\<lparr> gameBoard :=
          [[Some PX, None, Some PO], [None, Some PX, None], [None, None, None]] \<rparr>))
     = initialGlobals\<lparr> gameBoard :=
          [[Some PX, None, Some PO], [None, Some PX, None], [None, None, None]] \<rparr>"
proof -
  let ?g = "initialGlobals\<lparr> gameBoard :=
          [[Some PX, None, Some PO], [None, Some PX, None], [None, None, None]] \<rparr>"
  have wf: "wfBoard (boardSize ?g) (gameBoard ?g)" by code_simp
  from speculation_restores_board[OF wf, of 0 True NegInfinity Infinity 9 PX] wf
  show ?thesis by (simp add: initialGlobals_def)
qed

section \<open>Pruning\<close>

lemma NegInfinity_least [simp]: "NegInfinity \<le> x"
  by (simp add: less_eq_jsnum_def)

lemma Infinity_greatest [simp]: "x \<le> Infinity"
  by (cases x) (simp_all add: less_eq_jsnum_def)

lemma Number_le [simp]: "Number a \<le> Number b \<longleftrightarrow> a \<le> b"
  by (simp add: less_eq_jsnum_def)

lemma Number_less [simp]: "Number a < Number b \<longleftrightarrow> a < b"
  by (auto simp: less_jsnum_def less_eq_jsnum_def)

lemma agreesWithin_refl: "agreesWithin a b v v"
  by (simp add: agreesWithin_def)

lemma agreesWithin_full: "agreesWithin NegInfinity Infinity v s \<Longrightarrow> s = v"
  unfolding agreesWithin_def
  by (metis Infinity_greatest NegInfinity_least antisym_conv2 order_antisym)

lemma max_step_prune:
  fixes alpha :: jsnum
  assumes "alpha < beta" "agreesWithin alpha beta v s" "beta \<le> max alpha s"
    and "alpha = max a0 B" "max v P \<le> V"
  shows "agreesWithin a0 beta V (max s B)"
  using assms unfolding agreesWithin_def max_def by (auto split: if_splits)

lemma max_step_continue:
  fixes alpha :: jsnum
  assumes "alpha < beta" "agreesWithin alpha beta v s" "\<not> beta \<le> max alpha s"
    and "alpha = max a0 B" "P \<le> B" "a0 < B \<longrightarrow> B = P"
  shows "max alpha s = max a0 (max s B) \<and> max v P \<le> max s B \<and>
         (a0 < max s B \<longrightarrow> max s B = max v P)"
  using assms unfolding agreesWithin_def max_def by (auto split: if_splits)

lemma min_step_prune:
  fixes alpha :: jsnum
  assumes "alpha < beta" "agreesWithin alpha beta v s" "min beta s \<le> alpha"
    and "beta = min b0 B" "V \<le> min v P"
  shows "agreesWithin alpha b0 V (min s B)"
  using assms unfolding agreesWithin_def min_def by (auto split: if_splits)

lemma min_step_continue:
  fixes alpha :: jsnum
  assumes "alpha < beta" "agreesWithin alpha beta v s" "\<not> min beta s \<le> alpha"
    and "beta = min b0 B" "B \<le> P" "B < b0 \<longrightarrow> B = P"
  shows "min beta s = min b0 (min s B) \<and> min s B \<le> min v P \<and>
         (min s B < b0 \<longrightarrow> min s B = min v P)"
  using assms unfolding agreesWithin_def min_def by (auto split: if_splits)


lemma max_NegInfinity [simp]: "max a NegInfinity = a"
  by (simp add: max_def antisym)

lemma min_Infinity [simp]: "min b Infinity = b"
  by (simp add: min_def antisym)

lemma not_less_NegInfinity [simp]: "\<not> a < NegInfinity"
  by (simp add: less_jsnum_def)

lemma not_Infinity_less [simp]: "\<not> Infinity < b"
  by (simp add: less_jsnum_def)

lemma maxLoopPlain_ge: "P \<le> maxLoopPlain N L ai board depth maxDepth P cells"
proof (induction cells arbitrary: P)
  case Nil
  show ?case by simp
next
  case (Cons x cells)
  obtain i j where x: "x = (i, j)" by (cases x)
  show ?case
  proof (cases "cellAt board i j = None")
    case True
    let ?v = "minimaxPlain N L ai (setCell board i j (Some ai)) (depth + 1) False maxDepth"
    have "P \<le> max ?v P" by simp
    also have "\<dots> \<le> maxLoopPlain N L ai board depth maxDepth (max ?v P) cells" by (rule Cons.IH)
    finally show ?thesis by (simp add: x True)
  next
    case False
    from Cons.IH[of P] show ?thesis by (simp add: x False)
  qed
qed

lemma minLoopPlain_le: "minLoopPlain N L ai board depth maxDepth P cells \<le> P"
proof (induction cells arbitrary: P)
  case Nil
  show ?case by simp
next
  case (Cons x cells)
  obtain i j where x: "x = (i, j)" by (cases x)
  show ?case
  proof (cases "cellAt board i j = None")
    case True
    let ?v = "minimaxPlain N L ai (setCell board i j (Some (opponentOf ai))) (depth + 1) True maxDepth"
    have "minLoopPlain N L ai board depth maxDepth (min ?v P) cells \<le> min ?v P" by (rule Cons.IH)
    also have "\<dots> \<le> P" by simp
    finally show ?thesis by (simp add: x True)
  next
    case False
    from Cons.IH[of P] show ?thesis by (simp add: x False)
  qed
qed

lemma minimax_agrees:
  shows "alpha < beta \<Longrightarrow>
           agreesWithin alpha beta (minimaxPlain N L ai board depth isMaximizing maxDepth)
             (snd (minimax N L ai board depth isMaximizing alpha beta maxDepth))"
    and "alpha = max a0 bestScore \<Longrightarrow> alpha < beta \<Longrightarrow> P \<le> bestScore \<Longrightarrow>
         (a0 < bestScore \<longrightarrow> bestScore = P) \<Longrightarrow>
           agreesWithin a0 beta (maxLoopPlain N L ai board depth maxDepth P cells)
             (snd (maxLoop N L ai board depth alpha beta maxDepth bestScore cells))"
    and "beta = min b0 bestScore \<Longrightarrow> alpha < beta \<Longrightarrow> bestScore \<le> P \<Longrightarrow>
         (bestScore < b0 \<longrightarrow> bestScore = P) \<Longrightarrow>
           agreesWithin alpha b0 (minLoopPlain N L ai board depth maxDepth P cells)
             (snd (minLoop N L ai board depth alpha beta maxDepth bestScore cells))"
proof (induction N L ai board depth isMaximizing alpha beta maxDepth
         and N L ai board depth alpha beta maxDepth bestScore cells
         and N L ai board depth alpha beta maxDepth bestScore cells
       arbitrary: and a0 P and b0 P
       rule: minimax_maxLoop_minLoop.induct)
  case (1 N L ai board depth isMaximizing alpha beta maxDepth)
  let ?w = "checkWinnerForMinimax N L board"
  show ?case
  proof (cases "?w = Some ai \<or> ?w = Some (opponentOf ai) \<or> isBoardFullForMinimax N board \<or> depth \<ge> maxDepth")
    case True
    then have "snd (minimax N L ai board depth isMaximizing alpha beta maxDepth) =
               minimaxPlain N L ai board depth isMaximizing maxDepth"
      by (auto simp: minimax.simps(1) minimaxPlain.simps(1) Let_def)
    then show ?thesis by (simp add: agreesWithin_refl)
  next
    case False
    then have nt: "?w \<noteq> Some ai" "?w \<noteq> Some (opponentOf ai)" "\<not> isBoardFullForMinimax N board"
      "\<not> depth \<ge> maxDepth" by simp_all
    show ?thesis
    proof (cases isMaximizing)
      case True
      have "agreesWithin alpha beta (maxLoopPlain N L ai board depth maxDepth NegInfinity (allCells N))
              (snd (maxLoop N L ai board depth alpha beta maxDepth NegInfinity (allCells N)))"
        using "1.prems" by (intro "1.IH"(1)[OF refl nt True]) simp_all
      then show ?thesis using nt True
        by (simp add: minimax.simps(1) minimaxPlain.simps(1) Let_def)
    next
      case False
      have "agreesWithin alpha beta (minLoopPlain N L ai board depth maxDepth Infinity (allCells N))
              (snd (minLoop N L ai board depth alpha beta maxDepth Infinity (allCells N)))"
        using "1.prems" by (intro "1.IH"(2)[OF refl nt False]) simp_all
      then show ?thesis using nt False
        by (simp add: minimax.simps(1) minimaxPlain.simps(1) Let_def)
    qed
  qed
next
  case (2 N L ai board depth alpha beta maxDepth bestScore)
  then show ?case by (auto simp: agreesWithin_def max_def split: if_splits)
next
  case (3 N L ai board depth alpha beta maxDepth bestScore i j rest)
  show ?case
  proof (cases "cellAt board i j = None")
    case True
    let ?child = "setCell board i j (Some ai)"
    obtain board1 s where m: "minimax N L ai ?child (depth + 1) False alpha beta maxDepth = (board1, s)"
      by (cases "minimax N L ai ?child (depth + 1) False alpha beta maxDepth")
    let ?v = "minimaxPlain N L ai ?child (depth + 1) False maxDepth"
    have b1: "board1 = ?child" using minimax_restores(1)[of N L ai ?child "depth + 1" False alpha beta maxDepth] m by simp
    have b2: "setCell board1 i j None = board" unfolding b1 by (rule setCell_restore[OF True])
    have ag: "agreesWithin alpha beta ?v s"
      using "3.IH"(1)[OF True \<open>alpha < beta\<close>] m by simp
    show ?thesis
    proof (cases "beta \<le> max alpha s")
      case prune: True
      have "max ?v P \<le> maxLoopPlain N L ai board depth maxDepth (max ?v P) rest"
        by (rule maxLoopPlain_ge)
      from max_step_prune[OF \<open>alpha < beta\<close> ag prune \<open>alpha = max a0 bestScore\<close> this]
      show ?thesis using True m b2 prune by simp
    next
      case cont: False
      from max_step_continue[OF \<open>alpha < beta\<close> ag cont \<open>alpha = max a0 bestScore\<close> "3.prems"(3,4)]
      have e1: "max alpha s = max a0 (max s bestScore)"
        and e2: "max ?v P \<le> max s bestScore"
        and e3: "a0 < max s bestScore \<longrightarrow> max s bestScore = max ?v P" by simp_all
      have lt: "max alpha s < beta" using cont by (simp only: not_le)
      have "agreesWithin a0 beta (maxLoopPlain N L ai (setCell board1 i j None) depth maxDepth (max ?v P) rest)
              (snd (maxLoop N L ai (setCell board1 i j None) depth (max alpha s) beta maxDepth (max s bestScore) rest))"
        by (rule "3.IH"(2)[OF True refl m[symmetric] refl refl refl cont e1 lt e2 e3])
      then show ?thesis using True m b2 cont by simp
    qed
  next
    case False
    from "3.IH"(3)[OF False "3.prems"] show ?thesis by (simp add: False)
  qed
next
  case (4 N L ai board depth alpha beta maxDepth bestScore)
  then show ?case by (auto simp: agreesWithin_def min_def split: if_splits)
next
  case (5 N L ai board depth alpha beta maxDepth bestScore i j rest)
  show ?case
  proof (cases "cellAt board i j = None")
    case True
    let ?child = "setCell board i j (Some (opponentOf ai))"
    obtain board1 s where m: "minimax N L ai ?child (depth + 1) True alpha beta maxDepth = (board1, s)"
      by (cases "minimax N L ai ?child (depth + 1) True alpha beta maxDepth")
    let ?v = "minimaxPlain N L ai ?child (depth + 1) True maxDepth"
    have b1: "board1 = ?child" using minimax_restores(1)[of N L ai ?child "depth + 1" True alpha beta maxDepth] m by simp
    have b2: "setCell board1 i j None = board" unfolding b1 by (rule setCell_restore[OF True])
    have ag: "agreesWithin alpha beta ?v s"
      using "5.IH"(1)[OF True \<open>alpha < beta\<close>] m by simp
    show ?thesis
    proof (cases "min beta s \<le> alpha")
      case prune: True
      have "minLoopPlain N L ai board depth maxDepth (min ?v P) rest \<le> min ?v P"
        by (rule minLoopPlain_le)
      from min_step_prune[OF \<open>alpha < beta\<close> ag prune \<open>beta = min b0 bestScore\<close> this]
      show ?thesis using True m b2 prune by simp
    next
      case cont: False
      from min_step_continue[OF \<open>alpha < beta\<close> ag cont \<open>beta = min b0 bestScore\<close> "5.prems"(3,4)]
      have e1: "min beta s = min b0 (min s bestScore)"
        and e2: "min s bestScore \<le> min ?v P"
        and e3: "min s bestScore < b0 \<longrightarrow> min s bestScore = min ?v P" by simp_all
      have lt: "alpha < min beta s" using cont by (simp only: not_le)
      have "agreesWithin alpha b0 (minLoopPlain N L ai (setCell board1 i j None) depth maxDepth (min ?v P) rest)
              (snd (minLoop N L ai (setCell board1 i j None) depth alpha (min beta s) maxDepth (min s bestScore) rest))"
        by (rule "5.IH"(2)[OF True refl m[symmetric] refl refl refl cont e1 lt e2 e3])
      then show ?thesis using True m b2 cont by simp
    qed
  next
    case False
    from "5.IH"(3)[OF False "5.prems"] show ?thesis by (simp add: False)
  qed
qed


lemma NegInfinity_less_Infinity: "NegInfinity < Infinity"
  by (simp add: less_jsnum_def less_eq_jsnum_def)

lemma minimax_full_window:
  "snd (minimax N L ai board depth isMaximizing NegInfinity Infinity maxDepth) =
     minimaxPlain N L ai board depth isMaximizing maxDepth"
  by (rule agreesWithin_full[OF minimax_agrees(1)[OF NegInfinity_less_Infinity]])

lemma bestMoveLoop_plain:
  "snd (bestMoveLoop N L ai board maxDepth bestScore bestMove cells) =
     bestMoveLoopPlain N L ai board maxDepth bestScore bestMove cells"
proof (induction cells arbitrary: bestScore bestMove)
  case Nil
  show ?case by simp
next
  case (Cons x cells)
  obtain i j where x: "x = (i, j)" by (cases x)
  show ?case
  proof (cases "cellAt board i j = None")
    case True
    let ?child = "setCell board i j (Some ai)"
    obtain board1 s where m: "minimax N L ai ?child 0 False NegInfinity Infinity maxDepth = (board1, s)"
      by (cases "minimax N L ai ?child 0 False NegInfinity Infinity maxDepth")
    have "board1 = ?child"
      using minimax_restores(1)[of N L ai ?child 0 False NegInfinity Infinity maxDepth] m by simp
    then have b2: "setCell board1 i j None = board" by (simp add: setCell_restore[OF True])
    have s: "s = minimaxPlain N L ai ?child 0 False maxDepth"
      using minimax_full_window[of N L ai ?child 0 False maxDepth] m by simp
    show ?thesis using True m b2 Cons.IH by (simp add: x s[symmetric])
  next
    case False
    from Cons.IH show ?thesis by (simp add: x False)
  qed
qed

text \<open>
  Claim C4.  Called with the full window (\<open>alpha = -Infinity\<close>, \<open>beta = +Infinity\<close>),
  \<open>minimax\<close> returns the value of the same depth-limited minimax without pruning, at
  every position, depth and ceiling; hence \<open>findBestMove\<close>, which calls it with the full
  window for every candidate, selects the move it would select without pruning.
\<close>

theorem pruning_preserves_minimax:
  assumes "wfBoard (boardSize g) (gameBoard g)"
  shows "snd (minimax (boardSize g) (winLength g) (aiPlayer g) (gameBoard g)
                depth isMaximizing NegInfinity Infinity maxDepth)
           = minimaxPlain (boardSize g) (winLength g) (aiPlayer g) (gameBoard g)
               depth isMaximizing maxDepth \<and>
         fst (findBestMove g) = findBestMovePlain g"
proof -
  have "fst (findBestMove g) = findBestMovePlain g"
    using bestMoveLoop_plain[of "boardSize g" "winLength g" "aiPlayer g" "gameBoard g"
        "maxDepthFor (boardSize g)" NegInfinity None "allCells (boardSize g)"]
    by (simp add: findBestMove_def findBestMovePlain_def case_prod_unfold)
  then show ?thesis by (simp add: minimax_full_window)
qed

theorem pruning_preserves_minimax_witness:
  "wfBoard 3 [[Some PX, Some PO, Some PX], [None, Some PO, None], [None, Some PX, None]] \<and>
   snd (minimax 3 3 PO [[Some PX, Some PO, Some PX], [None, Some PO, None], [None, Some PX, None]]
          0 True NegInfinity Infinity 9)
     = minimaxPlain 3 3 PO [[Some PX, Some PO, Some PX], [None, Some PO, None], [None, Some PX, None]]
          0 True 9 \<and>
   fst (findBestMove (initialGlobals\<lparr> gameBoard :=
          [[Some PX, Some PO, Some PX], [None, Some PO, None], [None, Some PX, None]] \<rparr>))
     = findBestMovePlain (initialGlobals\<lparr> gameBoard :=
          [[Some PX, Some PO, Some PX], [None, Some PO, None], [None, Some PX, None]] \<rparr>) \<and>
   findBestMovePlain (initialGlobals\<lparr> gameBoard :=
          [[Some PX, Some PO, Some PX], [None, Some PO, None], [None, Some PX, None]] \<rparr>)
     = Some (1, 0)"
proof -
  let ?g = "initialGlobals\<lparr> gameBoard :=
          [[Some PX, Some PO, Some PX], [None, Some PO, None], [None, Some PX, None]] \<rparr>"
  have wf: "wfBoard (boardSize ?g) (gameBoard ?g)" by code_simp
  have v: "findBestMovePlain ?g = Some (1, 0)" by code_simp
  from pruning_preserves_minimax[OF wf, of 0 True 9] wf v
  show ?thesis by (simp add: initialGlobals_def)
qed

section \<open>Rejected moves\<close>

lemma handleCellClick_rejected:
  assumes "wfBoard (boardSize g) (gameBoard g)"
    and "\<not> gameActive g \<or> \<not> inBounds (boardSize g) row col \<or> cellAt (gameBoard g) row col \<noteq> None"
  shows "snd (handleCellClick row col g) = g \<and>
         fst (handleCellClick row col g) =
           (if gameActive g \<and> (row < 0 \<or> boardSize g \<le> row) then Some TypeError else None)"
proof -
  have len: "int (length (gameBoard g)) = boardSize g"
    using assms(1) by (simp add: wfBoard_def)
  have rowlen: "int (length (gameBoard g ! nat row)) = boardSize g" if "0 \<le> row" "row < boardSize g"
    using wfBoard_row[OF assms(1) that] assms(1) by (simp add: wfBoard_def)
  show ?thesis
  proof (cases "gameActive g")
    case False
    then show ?thesis by (simp add: handleCellClick_def)
  next
    case active: True
    show ?thesis
    proof (cases "0 \<le> row \<and> row < boardSize g")
      case False
      then show ?thesis using active len by (auto simp: handleCellClick_def)
    next
      case row: True
      show ?thesis
      proof (cases "0 \<le> col \<and> col < boardSize g")
        case False
        then show ?thesis using active len row rowlen by (auto simp: handleCellClick_def)
      next
        case True
        with row have "inBounds (boardSize g) row col" by (simp add: inBounds_def)
        with assms(2) active have "cellAt (gameBoard g) row col \<noteq> None" by simp
        then show ?thesis using active len row rowlen True by (auto simp: handleCellClick_def)
      qed
    qed
  qed
qed

text \<open>
  Claim C6, as the code has it.  A click on an occupied cell, on coordinates outside the
  board, or after the game has ended leaves the whole state unchanged (board, active
  player and game-active flag included): line 57 decides before any mutation.  No
  IllegalMove is signalled: \<open>handleCellClick\<close> returns silently; only a row outside the
  board during an active game makes the read \<open>gameBoard[row][col]\<close> of the guard throw a
  TypeError.
\<close>

theorem rejected_click_leaves_state:
  assumes "wfBoard (boardSize g) (gameBoard g)"
    and "\<not> gameActive g \<or> \<not> inBounds (boardSize g) row col \<or> cellAt (gameBoard g) row col \<noteq> None"
  shows "snd (handleCellClick row col g) = g \<and>
         fst (handleCellClick row col g) =
           (if gameActive g \<and> (row < 0 \<or> boardSize g \<le> row) then Some TypeError else None)"
  by (rule handleCellClick_rejected[OF assms])

theorem rejected_click_leaves_state_witness:
  "wfBoard 3 [[Some PX, None, None], [None, None, None], [None, None, None]] \<and>
   cellAt [[Some PX, None, None], [None, None, None], [None, None, None]] 0 0 \<noteq> None \<and>
   handleCellClick 0 0 (initialGlobals\<lparr> currentPlayer := PO, gameBoard :=
       [[Some PX, None, None], [None, None, None], [None, None, None]] \<rparr>)
     = (None, initialGlobals\<lparr> currentPlayer := PO, gameBoard :=
       [[Some PX, None, None], [None, None, None], [None, None, None]] \<rparr>)"
proof -
  let ?g = "initialGlobals\<lparr> currentPlayer := PO, gameBoard :=
       [[Some PX, None, None], [None, None, None], [None, None, None]] \<rparr>"
  have wf: "wfBoard (boardSize ?g) (gameBoard ?g)" by code_simp
  have occ: "\<not> gameActive ?g \<or> \<not> inBounds (boardSize ?g) 0 0 \<or> cellAt (gameBoard ?g) 0 0 \<noteq> None"
    by code_simp
  have act: "gameActive ?g \<and> \<not> ((0::int) < 0 \<or> boardSize ?g \<le> 0)" by code_simp
  from rejected_click_leaves_state[OF wf occ] act
  have "handleCellClick 0 0 ?g = (None, ?g)" by (simp add: prod_eq_iff)
  moreover have "wfBoard 3 [[Some PX, None, None], [None, None, None], [None, None, None]]"
    by code_simp
  moreover have "cellAt [[Some PX, None, None], [None, None, None], [None, None, None]] 0 0 \<noteq> None"
    by code_simp
  ultimately show ?thesis by simp
qed

text \<open>Claim C6 as stated fails: a click on an occupied cell raises no error.\<close>

theorem occupied_click_no_error_counterexample:
  "gameActive (initialGlobals\<lparr> currentPlayer := PO, gameBoard :=
       [[Some PX, None, None], [None, None, None], [None, None, None]] \<rparr>) \<and>
   cellAt [[Some PX, None, None], [None, None, None], [None, None, None]] 0 0 = Some PX \<and>
   fst (handleCellClick 0 0 (initialGlobals\<lparr> currentPlayer := PO, gameBoard :=
       [[Some PX, None, None], [None, None, None], [None, None, None]] \<rparr>)) = None"
  by code_simp

section \<open>The heuristic cascade\<close>

lemma winningMoveLoop_find:
  "snd (winningMoveLoop N L player board cells) = find (immediateWin N L board player) cells"
proof (induction cells)
  case Nil
  show ?case by simp
next
  case (Cons x cells)
  obtain i j where x: "x = (i, j)" by (cases x)
  show ?case
  proof (cases "cellAt board i j = None")
    case True
    with Cons.IH show ?thesis
      by (simp add: x Let_def setCell_restore[OF True] immediateWin_def)
  next
    case False
    from Cons.IH show ?thesis by (simp add: x False immediateWin_def)
  qed
qed

lemma findWinningMove_find:
  "findWinningMove player g =
     (find (immediateWin (boardSize g) (winLength g) (gameBoard g) player) (allCells (boardSize g)), g)"
  using winningMoveLoop_find[of "boardSize g" "winLength g" player "gameBoard g" "allCells (boardSize g)"]
    winningMoveLoop_restores[of "boardSize g" "winLength g" player "gameBoard g" "allCells (boardSize g)"]
  by (simp add: findWinningMove_def case_prod_unfold)

lemma gameBoard_checkWinner: "gameBoard (snd (checkWinner g)) = gameBoard g"
  by (simp add: checkWinner_def split: option.splits)

lemma gameBoard_checkGameEnd: "gameBoard (checkGameEnd g) = gameBoard g"
proof -
  obtain w g1 where c: "checkWinner g = (w, g1)" by (cases "checkWinner g")
  then have "gameBoard g1 = gameBoard g" using gameBoard_checkWinner[of g] by simp
  then show ?thesis
    by (simp add: checkGameEnd_def c endGame_def switchPlayer_def updateStatus_def
          split: option.splits)
qed

lemma makeHeuristicAIMove_unfold:
  assumes "currentPlayer g = aiPlayer g"
  shows "makeHeuristicAIMove randomIndex g =
     (case find (immediateWin (boardSize g) (winLength g) (gameBoard g) (aiPlayer g)) (allCells (boardSize g)) of
        Some (row, col) \<Rightarrow> checkGameEnd (makeMove row col g)
      | None \<Rightarrow>
         (case find (immediateWin (boardSize g) (winLength g) (gameBoard g) (opponentOf (aiPlayer g)))
                 (allCells (boardSize g)) of
            Some (row, col) \<Rightarrow> checkGameEnd (makeMove row col g)
          | None \<Rightarrow>
             (case findStrategicMove g of
                Some (row, col) \<Rightarrow> checkGameEnd (makeMove row col g)
              | None \<Rightarrow> checkGameEnd (makeRandomMove randomIndex g))))"
proof -
  have opp: "(if currentPlayer g = PX then PO else PX) = opponentOf (aiPlayer g)"
    using assms by (simp add: opponentOf_def)
  show ?thesis
    unfolding makeHeuristicAIMove_def findWinningMove_find prod.case Let_def opp
    by (rule refl)
qed

lemma gameBoard_played:
  "currentPlayer g = aiPlayer g \<Longrightarrow>
   gameBoard (checkGameEnd (makeMove row col g)) = setCell (gameBoard g) row col (Some (aiPlayer g))"
  by (simp add: gameBoard_checkGameEnd makeMove_def)

lemma gameBoard_makeRandomMove:
  "currentPlayer g = aiPlayer g \<Longrightarrow>
   gameBoard (checkGameEnd (makeRandomMove randomIndex g)) =
     (if emptyCells g = [] then gameBoard g
      else (case emptyCells g ! randomIndex of
              (row, col) \<Rightarrow> setCell (gameBoard g) row col (Some (aiPlayer g))))"
  by (simp add: gameBoard_checkGameEnd makeRandomMove_def makeMove_def case_prod_unfold Let_def)

lemma findStrategicMove_target: "findStrategicMove g = strategicTarget g"
  by (simp add: findStrategicMove_def strategicTarget_def corners_def Let_def)

lemma heuristicTarget_unfold:
  "heuristicTarget randomIndex g =
     (case find (immediateWin (boardSize g) (winLength g) (gameBoard g) (aiPlayer g)) (allCells (boardSize g)) of
        Some cell \<Rightarrow> Some cell
      | None \<Rightarrow>
         (case find (immediateWin (boardSize g) (winLength g) (gameBoard g) (opponentOf (aiPlayer g)))
                 (allCells (boardSize g)) of
            Some cell \<Rightarrow> Some cell
          | None \<Rightarrow>
             (case findStrategicMove g of
                Some cell \<Rightarrow> Some cell
              | None \<Rightarrow> if emptyCells g = [] then None else Some (emptyCells g ! randomIndex))))"
  unfolding heuristicTarget_def findStrategicMove_target Let_def by (rule refl)

lemma findStrategicMove_mem:
  assumes "1 \<le> boardSize g" "findStrategicMove g = Some cell"
  shows "cell \<in> set (emptyCells g)"
proof -
  let ?N = "boardSize g"
  have centre: "(?N div 2, ?N div 2) \<in> set (allCells ?N)"
    using assms(1) by (auto simp: set_allCells)
  have corner: "set [(0, 0), (0, ?N - 1), (?N - 1, 0), (?N - 1, ?N - 1)] \<subseteq> set (allCells ?N)"
    using assms(1) by (simp add: set_allCells)
  show ?thesis
  proof (cases "cellAt (gameBoard g) (?N div 2) (?N div 2) = None")
    case True
    with assms(2) have "cell = (?N div 2, ?N div 2)"
      by (simp add: findStrategicMove_target strategicTarget_def Let_def)
    with True centre show ?thesis by (simp add: emptyCells_def)
  next
    case False
    with assms(2) have "find (\<lambda>(r, c). cellAt (gameBoard g) r c = None)
             [(0, 0), (0, ?N - 1), (?N - 1, 0), (?N - 1, ?N - 1)] = Some cell"
      by (simp add: findStrategicMove_target strategicTarget_def Let_def)
    from find_SomeD[OF this] corner show ?thesis
      by (auto simp: emptyCells_def)
  qed
qed

lemma find_immediateWin_mem:
  assumes "find (immediateWin (boardSize g) L (gameBoard g) p) (allCells (boardSize g)) = Some cell"
  shows "cell \<in> set (emptyCells g)"
  using find_SomeD[OF assms] by (auto simp: emptyCells_def immediateWin_def)

text \<open>
  On the computing player's own turn (\<open>currentPlayer = aiPlayer\<close>), \<open>makeHeuristicAIMove\<close>
  places the computing player's mark on the target of the cascade: win now, else block,
  else center or first empty corner, else the empty cell selected by the random index; the
  target is an empty cell of the board.  In the \<open>8 \<times> 8\<close> scenario with run-length 4 the
  open fourth cell \<open>(3, 5)\<close> is played.
\<close>

lemma makeHeuristicAIMove_on_turn:
  assumes "wfBoard (boardSize g) (gameBoard g)"
    and "1 \<le> boardSize g"
    and "currentPlayer g = aiPlayer g"
    and "randomIndex < length (emptyCells g) \<or> emptyCells g = []"
  shows "gameBoard (makeHeuristicAIMove randomIndex g) =
           (case heuristicTarget randomIndex g of
              Some (row, col) \<Rightarrow> setCell (gameBoard g) row col (Some (aiPlayer g))
            | None \<Rightarrow> gameBoard g) \<and>
         (\<forall>cell. heuristicTarget randomIndex g = Some cell \<longrightarrow> cell \<in> set (emptyCells g))"
proof -
  let ?W = "find (immediateWin (boardSize g) (winLength g) (gameBoard g) (aiPlayer g)) (allCells (boardSize g))"
  let ?B = "find (immediateWin (boardSize g) (winLength g) (gameBoard g) (opponentOf (aiPlayer g))) (allCells (boardSize g))"
  note played = gameBoard_played[OF assms(3)]
  note random = gameBoard_makeRandomMove[OF assms(3)]
  show ?thesis
  proof (cases ?W)
    case (Some cell)
    then have "heuristicTarget randomIndex g = Some cell" by (simp add: heuristicTarget_unfold)
    moreover have "makeHeuristicAIMove randomIndex g = checkGameEnd (makeMove (fst cell) (snd cell) g)"
      using Some by (simp add: makeHeuristicAIMove_unfold[OF assms(3)] case_prod_unfold)
    ultimately show ?thesis using find_immediateWin_mem[OF Some]
      by (simp add: played case_prod_unfold)
  next
    case noWin: None
    show ?thesis
    proof (cases ?B)
      case (Some cell)
      then have "heuristicTarget randomIndex g = Some cell" using noWin by (simp add: heuristicTarget_unfold)
      moreover have "makeHeuristicAIMove randomIndex g = checkGameEnd (makeMove (fst cell) (snd cell) g)"
        using Some noWin by (simp add: makeHeuristicAIMove_unfold[OF assms(3)] case_prod_unfold)
      ultimately show ?thesis using find_immediateWin_mem[OF Some]
        by (simp add: played case_prod_unfold)
    next
      case noBlock: None
      show ?thesis
      proof (cases "findStrategicMove g")
        case (Some cell)
        then have "heuristicTarget randomIndex g = Some cell"
          using noWin noBlock by (simp add: heuristicTarget_unfold)
        moreover have "makeHeuristicAIMove randomIndex g = checkGameEnd (makeMove (fst cell) (snd cell) g)"
          using Some noWin noBlock by (simp add: makeHeuristicAIMove_unfold[OF assms(3)] case_prod_unfold)
        ultimately show ?thesis using findStrategicMove_mem[OF assms(2) Some]
          by (simp add: played case_prod_unfold)
      next
        case None
        have t: "heuristicTarget randomIndex g =
                   (if emptyCells g = [] then None else Some (emptyCells g ! randomIndex))"
          using None noWin noBlock by (simp add: heuristicTarget_unfold)
        have m: "makeHeuristicAIMove randomIndex g = checkGameEnd (makeRandomMove randomIndex g)"
          using None noWin noBlock by (simp add: makeHeuristicAIMove_unfold[OF assms(3)])
        show ?thesis
        proof (cases "emptyCells g = []")
          case True
          then show ?thesis by (simp add: t m random)
        next
          case False
          with assms(4) have "emptyCells g ! randomIndex \<in> set (emptyCells g)" by simp
          with False show ?thesis by (simp add: t m random)
        qed
      qed
    qed
  qed
qed

lemma makeHeuristicAIMove_scenario8:
  "wfBoard 8 scenario8 \<and>
   heuristicTarget 0 (snd (initGame 8 ''ai'' initialGlobals)\<lparr> currentPlayer := PO, gameBoard := scenario8 \<rparr>)
     = Some (3, 5) \<and>
   gameBoard (makeHeuristicAIMove 0
      (snd (initGame 8 ''ai'' initialGlobals)\<lparr> currentPlayer := PO, gameBoard := scenario8 \<rparr>))
     = setCell scenario8 3 5 (Some PO)"
proof -
  let ?g = "snd (initGame 8 ''ai'' initialGlobals)\<lparr> currentPlayer := PO, gameBoard := scenario8 \<rparr>"
  have wf: "wfBoard (boardSize ?g) (gameBoard ?g)" by code_simp
  have n: "1 \<le> boardSize ?g" by code_simp
  have cur: "currentPlayer ?g = aiPlayer ?g" by code_simp
  have ri: "0 < length (emptyCells ?g) \<or> emptyCells ?g = []" by code_simp
  have t: "heuristicTarget 0 ?g = Some (3, 5)" by code_simp
  have b: "gameBoard ?g = scenario8" and a: "aiPlayer ?g = PO" by code_simp+
  have w: "wfBoard 8 scenario8" by code_simp
  from makeHeuristicAIMove_on_turn[OF wf n cur ri] t b a w show ?thesis by simp
qed

lemma doubleClickPosition_state:
  "doubleClickPosition =
     \<lparr> boardSize = 6, gameMode = ''ai'', currentPlayer = PX,
       gameBoard =
         [[Some PX, Some PX, None, None, None, None],
          [None, None, None, None, None, None],
          [None, None, None, None, None, None],
          [None, None, None, Some PO, None, None],
          [None, None, None, None, None, None],
          [Some PO, None, None, None, None, None]],
       gameActive = True, aiPlayer = PO, winLength = 3, statusText = TurnOf PX,
       highlighted = [], aiTimers = 1 \<rparr>"
  by code_simp

text \<open>
  Claim C7 does not hold of the code in every state in which the timeout fires.  Line 426
  probes a win for \<open>aiPlayer\<close>, but line 434 takes the opponent to be the other player
  than \<open>currentPlayer\<close>, and \<open>makeMove\<close> writes the mark of \<open>currentPlayer\<close>.  In
  \<open>doubleClickPosition\<close> the timeout fires with \<open>currentPlayer = X\<close> and \<open>aiPlayer = O\<close>:
  the computing player \<open>O\<close> has no immediate win, the opponent \<open>X\<close> would win at
  \<open>(0, 2)\<close>, which is the target of the cascade of the claim; the code probes \<open>O\<close> a
  second time, finds nothing to block, and writes an \<open>X\<close> on the corner \<open>(0, 5)\<close>, leaving
  \<open>(0, 2)\<close> open.
\<close>

theorem heuristic_misses_block_off_turn:
  "gameBoard doubleClickPosition =
     [[Some PX, Some PX, None, None, None, None],
      [None, None, None, None, None, None],
      [None, None, None, None, None, None],
      [None, None, None, Some PO, None, None],
      [None, None, None, None, None, None],
      [Some PO, None, None, None, None, None]] \<and>
   gameActive doubleClickPosition \<and>
   aiTimers doubleClickPosition = 1 \<and>
   aiPlayer doubleClickPosition = PO \<and>
   currentPlayer doubleClickPosition = PX \<and>
   find (immediateWin 6 3 (gameBoard doubleClickPosition) PO) (allCells 6) = None \<and>
   find (immediateWin 6 3 (gameBoard doubleClickPosition) PX) (allCells 6) = Some (0, 2) \<and>
   heuristicTarget 0 doubleClickPosition = Some (0, 2) \<and>
   gameBoard (fireTimer 0 doubleClickPosition) =
     [[Some PX, Some PX, None, None, None, Some PX],
      [None, None, None, None, None, None],
      [None, None, None, None, None, None],
      [None, None, None, Some PO, None, None],
      [None, None, None, None, None, None],
      [Some PO, None, None, None, None, None]]"
  unfolding doubleClickPosition_state by code_simp

section \<open>The computer does not lose on the 3x3 board\<close>

subsection \<open>Values of the search without pruning\<close>

lemma Number_not_le_NegInfinity [simp]: "\<not> Number a \<le> NegInfinity"
  by (simp add: less_eq_jsnum_def)

lemma Infinity_not_le_Number [simp]: "\<not> Infinity \<le> Number a"
  by (simp add: less_eq_jsnum_def)

lemma distinct_allCells: "distinct (allCells N)"
  unfolding allCells_def
  by (rule distinct_concat) (auto simp: distinct_map inj_on_def)

lemma allCells_inBounds: "(i, j) \<in> set (allCells N) \<longleftrightarrow> inBounds N i j"
  by (auto simp: set_allCells inBounds_def)

lemma wfBoard_setCell:
  assumes "wfBoard N b"
  shows "wfBoard N (setCell b i j v)"
proof (cases "nat i < length b")
  case True
  have rows: "\<forall>row \<in> set b. length row = nat N" using assms by (simp add: wfBoard_def list_all_iff)
  then have "length ((b ! nat i)[nat j := v]) = nat N" using True by simp
  moreover have "set (b[nat i := (b ! nat i)[nat j := v]]) \<subseteq> insert ((b ! nat i)[nat j := v]) (set b)"
    by (rule set_update_subset_insert)
  ultimately have "\<forall>row \<in> set (b[nat i := (b ! nat i)[nat j := v]]). length row = nat N"
    using rows by blast
  then show ?thesis using assms by (simp add: wfBoard_def setCell_def list_all_iff)
next
  case False
  then have "b[nat i := (b ! nat i)[nat j := v]] = b" by (simp add: list_update_beyond)
  then show ?thesis using assms by (simp add: setCell_def)
qed

lemma cellAt_setCell:
  assumes "wfBoard N b" "inBounds N i j" "inBounds N i' j'"
  shows "cellAt (setCell b i j v) i' j' = (if (i', j') = (i, j) then v else cellAt b i' j')"
proof -
  from assms(2) have i: "0 \<le> i" "i < N" and j: "0 \<le> j" "j < N" by (auto simp: inBounds_def)
  from assms(3) have i': "0 \<le> i'" "i' < N" and j': "0 \<le> j'" "j' < N" by (auto simp: inBounds_def)
  have lb: "length b = nat N" using assms(1) by (simp add: wfBoard_def)
  have lr: "length (b ! nat i) = nat N" by (rule wfBoard_row[OF assms(1) i])
  show ?thesis
  proof (cases "i' = i")
    case True
    then show ?thesis using i j j' lb lr
      by (auto simp: cellAt_def setCell_def nth_list_update)
  next
    case False
    then have "nat i' \<noteq> nat i" using i i' by simp
    then show ?thesis using False by (simp add: cellAt_def setCell_def)
  qed
qed

lemma filter_remove_one:
  assumes "distinct xs" "c \<in> set xs" "P c"
  shows "length (filter P xs) = Suc (length (filter (\<lambda>x. P x \<and> x \<noteq> c) xs))"
  using assms
proof (induction xs)
  case Nil
  then show ?case by simp
next
  case (Cons x xs)
  show ?case
  proof (cases "x = c")
    case True
    with Cons.prems have "c \<notin> set xs" by simp
    then have "filter (\<lambda>x. P x \<and> x \<noteq> c) xs = filter P xs"
      by (intro filter_cong) auto
    with True Cons.prems show ?thesis by simp
  next
    case False
    with Cons show ?thesis by simp
  qed
qed

lemma emptyCount_setCell:
  assumes "wfBoard N b" "inBounds N i j" "cellAt b i j = None"
  shows "emptyCount N b = Suc (emptyCount N (setCell b i j (Some p)))"
proof -
  have mem: "(i, j) \<in> set (allCells N)" using assms(2) by (simp add: allCells_inBounds)
  have "filter (\<lambda>(i', j'). cellAt (setCell b i j (Some p)) i' j' = None) (allCells N) =
        filter (\<lambda>x. (case x of (i', j') \<Rightarrow> cellAt b i' j' = None) \<and> x \<noteq> (i, j)) (allCells N)"
    by (rule filter_cong[OF refl])
       (auto simp: allCells_inBounds cellAt_setCell[OF assms(1,2)] assms(3) split: if_splits)
  moreover have "length (filter (\<lambda>(i', j'). cellAt b i' j' = None) (allCells N)) =
        Suc (length (filter (\<lambda>x. (case x of (i', j') \<Rightarrow> cellAt b i' j' = None) \<and> x \<noteq> (i, j)) (allCells N)))"
    by (rule filter_remove_one[OF distinct_allCells mem]) (simp add: assms(3))
  ultimately show ?thesis by (simp add: emptyCount_def)
qed

lemma full_iff_emptyCount: "isBoardFullForMinimax N b \<longleftrightarrow> emptyCount N b = 0"
  by (auto simp: isBoardFullForMinimax_def emptyCount_def list_all_iff filter_empty_conv)


lemma minimaxPlain_max_node:
  assumes "checkWinnerForMinimax N L b = None" "\<not> isBoardFullForMinimax N b" "depth < maxDepth"
  shows "minimaxPlain N L ai b depth True maxDepth =
           maxLoopPlain N L ai b depth maxDepth NegInfinity (allCells N)"
  using assms by (simp add: minimaxPlain.simps(1))

lemma minimaxPlain_min_node:
  assumes "checkWinnerForMinimax N L b = None" "\<not> isBoardFullForMinimax N b" "depth < maxDepth"
  shows "minimaxPlain N L ai b depth False maxDepth =
           minLoopPlain N L ai b depth maxDepth Infinity (allCells N)"
  using assms by (simp add: minimaxPlain.simps(1))

lemma minimaxPlain_lost:
  assumes "checkWinnerForMinimax N L b = Some (opponentOf ai)"
  shows "minimaxPlain N L ai b depth isMaximizing maxDepth = Number (depth - 1000)"
  using assms opponentOf_neq[of ai] by (simp add: minimaxPlain.simps(1))

lemma minLoopPlain_nonneg_child:
  assumes "Number 0 \<le> minLoopPlain N L ai b depth maxDepth best cells"
    and "(i, j) \<in> set cells" "cellAt b i j = None"
  shows "Number 0 \<le> minimaxPlain N L ai (setCell b i j (Some (opponentOf ai))) (depth + 1) True maxDepth"
  using assms
proof (induction cells arbitrary: best)
  case Nil
  then show ?case by simp
next
  case (Cons x cells)
  obtain i' j' where x: "x = (i', j')" by (cases x)
  let ?v = "minimaxPlain N L ai (setCell b i' j' (Some (opponentOf ai))) (depth + 1) True maxDepth"
  show ?case
  proof (cases "cellAt b i' j' = None")
    case True
    with Cons.prems(1) have r: "Number 0 \<le> minLoopPlain N L ai b depth maxDepth (min ?v best) cells"
      by (simp add: x)
    show ?thesis
    proof (cases "(i, j) = (i', j')")
      case True
      have "minLoopPlain N L ai b depth maxDepth (min ?v best) cells \<le> min ?v best"
        by (rule minLoopPlain_le)
      also have "min ?v best \<le> ?v" by simp
      finally have "Number 0 \<le> ?v" using r by (rule order_trans[rotated])
      with True show ?thesis by simp
    next
      case False
      with Cons.prems(2) have "(i, j) \<in> set cells" by (auto simp: x)
      from Cons.IH[OF r this Cons.prems(3)] show ?thesis .
    qed
  next
    case False
    with Cons.prems(1) have r: "Number 0 \<le> minLoopPlain N L ai b depth maxDepth best cells"
      by (simp add: x)
    from False Cons.prems(2,3) have "(i, j) \<in> set cells" by (auto simp: x)
    from Cons.IH[OF r this Cons.prems(3)] show ?thesis .
  qed
qed

lemma minLoopPlain_nonneg:
  assumes "Number 0 \<le> best"
    and "\<And>i j. (i, j) \<in> set cells \<Longrightarrow> cellAt b i j = None \<Longrightarrow>
           Number 0 \<le> minimaxPlain N L ai (setCell b i j (Some (opponentOf ai))) (depth + 1) True maxDepth"
  shows "Number 0 \<le> minLoopPlain N L ai b depth maxDepth best cells"
  using assms
proof (induction cells arbitrary: best)
  case Nil
  then show ?case by simp
next
  case (Cons x cells)
  obtain i' j' where x: "x = (i', j')" by (cases x)
  let ?v = "minimaxPlain N L ai (setCell b i' j' (Some (opponentOf ai))) (depth + 1) True maxDepth"
  show ?case
  proof (cases "cellAt b i' j' = None")
    case True
    have "Number 0 \<le> ?v" using Cons.prems(2)[of i' j'] True by (simp add: x)
    with Cons.prems(1) have "Number 0 \<le> min ?v best" by simp
    from Cons.IH[OF this] Cons.prems(2) have "Number 0 \<le> minLoopPlain N L ai b depth maxDepth (min ?v best) cells"
      by simp
    with True show ?thesis by (simp add: x)
  next
    case False
    from Cons.IH[OF Cons.prems(1)] Cons.prems(2) have "Number 0 \<le> minLoopPlain N L ai b depth maxDepth best cells"
      by simp
    then show ?thesis by (simp add: x False)
  qed
qed

lemma maxLoopPlain_nonneg_child:
  assumes "Number 0 \<le> maxLoopPlain N L ai b depth maxDepth best cells"
  shows "Number 0 \<le> best \<or>
         (\<exists>i j. (i, j) \<in> set cells \<and> cellAt b i j = None \<and>
            Number 0 \<le> minimaxPlain N L ai (setCell b i j (Some ai)) (depth + 1) False maxDepth)"
  using assms
proof (induction cells arbitrary: best)
  case Nil
  then show ?case by simp
next
  case (Cons x cells)
  obtain i' j' where x: "x = (i', j')" by (cases x)
  let ?v = "minimaxPlain N L ai (setCell b i' j' (Some ai)) (depth + 1) False maxDepth"
  show ?case
  proof (cases "cellAt b i' j' = None")
    case True
    with Cons.prems have "Number 0 \<le> maxLoopPlain N L ai b depth maxDepth (max ?v best) cells"
      by (simp add: x)
    from Cons.IH[OF this] show ?thesis
    proof
      assume "Number 0 \<le> max ?v best"
      then have "Number 0 \<le> ?v \<or> Number 0 \<le> best" by (simp add: le_max_iff_disj)
      with True show ?thesis by (auto simp: x)
    next
      assume "\<exists>i j. (i, j) \<in> set cells \<and> cellAt b i j = None \<and>
            Number 0 \<le> minimaxPlain N L ai (setCell b i j (Some ai)) (depth + 1) False maxDepth"
      then show ?thesis by auto
    qed
  next
    case False
    with Cons.prems have "Number 0 \<le> maxLoopPlain N L ai b depth maxDepth best cells"
      by (simp add: x)
    from Cons.IH[OF this] show ?thesis by auto
  qed
qed


lemma sign_depth:
  shows "wfBoard N board \<Longrightarrow> maxDepth < 1000 \<Longrightarrow>
         depth + int (emptyCount N board) \<le> maxDepth \<Longrightarrow>
         depth' + int (emptyCount N board) \<le> maxDepth \<Longrightarrow>
         Number 0 \<le> minimaxPlain N L ai board depth isMaximizing maxDepth \<Longrightarrow>
         Number 0 \<le> minimaxPlain N L ai board depth' isMaximizing maxDepth"
    and "wfBoard N board \<Longrightarrow> maxDepth < 1000 \<Longrightarrow> set cells \<subseteq> set (allCells N) \<Longrightarrow>
         depth + int (emptyCount N board) \<le> maxDepth \<Longrightarrow>
         depth' + int (emptyCount N board) \<le> maxDepth \<Longrightarrow>
         (Number 0 \<le> bestScore \<longrightarrow> Number 0 \<le> bestScore') \<Longrightarrow>
         Number 0 \<le> maxLoopPlain N L ai board depth maxDepth bestScore cells \<Longrightarrow>
         Number 0 \<le> maxLoopPlain N L ai board depth' maxDepth bestScore' cells"
    and "wfBoard N board \<Longrightarrow> maxDepth < 1000 \<Longrightarrow> set cells \<subseteq> set (allCells N) \<Longrightarrow>
         depth + int (emptyCount N board) \<le> maxDepth \<Longrightarrow>
         depth' + int (emptyCount N board) \<le> maxDepth \<Longrightarrow>
         (Number 0 \<le> bestScore \<longrightarrow> Number 0 \<le> bestScore') \<Longrightarrow>
         Number 0 \<le> minLoopPlain N L ai board depth maxDepth bestScore cells \<Longrightarrow>
         Number 0 \<le> minLoopPlain N L ai board depth' maxDepth bestScore' cells"
proof (induction N L ai board depth isMaximizing maxDepth
         and N L ai board depth maxDepth bestScore cells
         and N L ai board depth maxDepth bestScore cells
       arbitrary: depth' and depth' bestScore' and depth' bestScore'
       rule: minimaxPlain_maxLoopPlain_minLoopPlain.induct)
  case (1 N L ai board depth isMaximizing maxDepth)
  let ?w = "checkWinnerForMinimax N L board"
  from "1.prems" have d: "depth \<le> maxDepth" and d': "depth' \<le> maxDepth" by simp_all
  show ?case
  proof (cases "?w = Some ai")
    case True
    then show ?thesis using d' "1.prems"(2) by (simp add: minimaxPlain.simps(1))
  next
    case nai: False
    show ?thesis
    proof (cases "?w = Some (opponentOf ai)")
      case True
      with nai "1.prems"(5) d "1.prems"(2) show ?thesis by (simp add: minimaxPlain.simps(1))
    next
      case nopp: False
      show ?thesis
      proof (cases "isBoardFullForMinimax N board")
        case True
        with nai nopp show ?thesis by (simp add: minimaxPlain.simps(1))
      next
        case nfull: False
        then have "emptyCount N board \<noteq> 0" by (simp add: full_iff_emptyCount)
        with "1.prems"(3,4) have lt: "\<not> maxDepth \<le> depth" and lt': "\<not> maxDepth \<le> depth'" by simp_all
        show ?thesis
        proof (cases isMaximizing)
          case True
          from "1.prems"(5) have "Number 0 \<le> maxLoopPlain N L ai board depth maxDepth NegInfinity (allCells N)"
            using nai nopp nfull lt True by (simp add: minimaxPlain.simps(1))
          from "1.IH"(1)[OF refl nai nopp nfull lt True "1.prems"(1,2) subset_refl "1.prems"(3,4) _ this, of NegInfinity]
          have "Number 0 \<le> maxLoopPlain N L ai board depth' maxDepth NegInfinity (allCells N)" by simp
          then show ?thesis using nai nopp nfull lt' True by (simp add: minimaxPlain.simps(1))
        next
          case False
          from "1.prems"(5) have "Number 0 \<le> minLoopPlain N L ai board depth maxDepth Infinity (allCells N)"
            using nai nopp nfull lt False by (simp add: minimaxPlain.simps(1))
          from "1.IH"(2)[OF refl nai nopp nfull lt False "1.prems"(1,2) subset_refl "1.prems"(3,4) _ this, of Infinity]
          have "Number 0 \<le> minLoopPlain N L ai board depth' maxDepth Infinity (allCells N)" by simp
          then show ?thesis using nai nopp nfull lt' False by (simp add: minimaxPlain.simps(1))
        qed
      qed
    qed
  qed
next
  case (2 N L ai board depth maxDepth bestScore)
  then show ?case by simp
next
  case (3 N L ai board depth maxDepth bestScore i j rest)
  from "3.prems"(3) have rest: "set rest \<subseteq> set (allCells N)" and ib: "inBounds N i j"
    by (simp_all add: allCells_inBounds)
  show ?case
  proof (cases "cellAt board i j = None")
    case True
    let ?child = "setCell board i j (Some ai)"
    let ?s = "minimaxPlain N L ai ?child (depth + 1) False maxDepth"
    let ?s' = "minimaxPlain N L ai ?child (depth' + 1) False maxDepth"
    have wf: "wfBoard N ?child" by (rule wfBoard_setCell[OF "3.prems"(1)])
    have ec: "emptyCount N board = Suc (emptyCount N ?child)"
      by (rule emptyCount_setCell[OF "3.prems"(1) ib True])
    have c1: "depth + 1 + int (emptyCount N ?child) \<le> maxDepth" using "3.prems"(4) ec by simp
    have c2: "depth' + 1 + int (emptyCount N ?child) \<le> maxDepth" using "3.prems"(5) ec by simp
    have sgn: "Number 0 \<le> ?s \<Longrightarrow> Number 0 \<le> ?s'"
      by (rule "3.IH"(1)[OF True wf "3.prems"(2) c1 c2])
    have imp: "Number 0 \<le> max ?s bestScore \<longrightarrow> Number 0 \<le> max ?s' bestScore'"
      using sgn "3.prems"(6) by (auto simp: le_max_iff_disj)
    from "3.prems"(7) True have "Number 0 \<le> maxLoopPlain N L ai board depth maxDepth (max ?s bestScore) rest"
      by simp
    from "3.IH"(2)[OF True refl "3.prems"(1,2) rest "3.prems"(4,5) imp this]
    show ?thesis using True by simp
  next
    case False
    from "3.prems"(7) have "Number 0 \<le> maxLoopPlain N L ai board depth maxDepth bestScore rest"
      by (simp add: False)
    from "3.IH"(3)[OF False "3.prems"(1,2) rest "3.prems"(4,5,6) this]
    show ?thesis by (simp add: False)
  qed
next
  case (4 N L ai board depth maxDepth bestScore)
  then show ?case by simp
next
  case (5 N L ai board depth maxDepth bestScore i j rest)
  from "5.prems"(3) have rest: "set rest \<subseteq> set (allCells N)" and ib: "inBounds N i j"
    by (simp_all add: allCells_inBounds)
  show ?case
  proof (cases "cellAt board i j = None")
    case True
    let ?child = "setCell board i j (Some (opponentOf ai))"
    let ?s = "minimaxPlain N L ai ?child (depth + 1) True maxDepth"
    let ?s' = "minimaxPlain N L ai ?child (depth' + 1) True maxDepth"
    have wf: "wfBoard N ?child" by (rule wfBoard_setCell[OF "5.prems"(1)])
    have ec: "emptyCount N board = Suc (emptyCount N ?child)"
      by (rule emptyCount_setCell[OF "5.prems"(1) ib True])
    have c1: "depth + 1 + int (emptyCount N ?child) \<le> maxDepth" using "5.prems"(4) ec by simp
    have c2: "depth' + 1 + int (emptyCount N ?child) \<le> maxDepth" using "5.prems"(5) ec by simp
    have sgn: "Number 0 \<le> ?s \<Longrightarrow> Number 0 \<le> ?s'"
      by (rule "5.IH"(1)[OF True wf "5.prems"(2) c1 c2])
    have imp: "Number 0 \<le> min ?s bestScore \<longrightarrow> Number 0 \<le> min ?s' bestScore'"
      using sgn "5.prems"(6) by auto
    from "5.prems"(7) True have "Number 0 \<le> minLoopPlain N L ai board depth maxDepth (min ?s bestScore) rest"
      by simp
    from "5.IH"(2)[OF True refl "5.prems"(1,2) rest "5.prems"(4,5) imp this]
    show ?thesis using True by simp
  next
    case False
    from "5.prems"(7) have "Number 0 \<le> minLoopPlain N L ai board depth maxDepth bestScore rest"
      by (simp add: False)
    from "5.IH"(3)[OF False "5.prems"(1,2) rest "5.prems"(4,5,6) this]
    show ?thesis by (simp add: False)
  qed
qed


lemma bestMoveLoopPlain_picks:
  assumes "NegInfinity < t"
    and "bestMove = None \<longrightarrow> bestScore = NegInfinity"
    and "\<forall>i j. bestMove = Some (i, j) \<longrightarrow> cellAt b i j = None \<and> (i, j) \<in> S \<and>
           minimaxPlain N L ai (setCell b i j (Some ai)) 0 False maxDepth = bestScore"
    and "set cells \<subseteq> S"
    and "t \<le> bestScore \<or> (\<exists>i j. (i, j) \<in> set cells \<and> cellAt b i j = None \<and>
           t \<le> minimaxPlain N L ai (setCell b i j (Some ai)) 0 False maxDepth)"
  shows "\<exists>i j. bestMoveLoopPlain N L ai b maxDepth bestScore bestMove cells = Some (i, j) \<and>
           cellAt b i j = None \<and> (i, j) \<in> S \<and>
           t \<le> minimaxPlain N L ai (setCell b i j (Some ai)) 0 False maxDepth"
  using assms(2-)
proof (induction cells arbitrary: bestScore bestMove)
  case Nil
  from Nil.prems(4) have t: "t \<le> bestScore" by simp
  with assms(1) have "bestScore \<noteq> NegInfinity" by auto
  with Nil.prems(1) obtain i j where "bestMove = Some (i, j)" by (cases bestMove) auto
  with Nil.prems(2) t show ?case by auto
next
  case (Cons x cells)
  obtain i' j' where x: "x = (i', j')" by (cases x)
  let ?s = "minimaxPlain N L ai (setCell b i' j' (Some ai)) 0 False maxDepth"
  from Cons.prems(3) have sub: "set cells \<subseteq> S" and xs: "(i', j') \<in> S" by (simp_all add: x)
  show ?case
  proof (cases "cellAt b i' j' = None")
    case empty: True
    show ?thesis
    proof (cases "bestScore < ?s")
      case True
      have p: "t \<le> ?s \<or> (\<exists>i j. (i, j) \<in> set cells \<and> cellAt b i j = None \<and>
           t \<le> minimaxPlain N L ai (setCell b i j (Some ai)) 0 False maxDepth)"
        using Cons.prems(4) True by (auto simp: x)
      have "\<exists>i j. bestMoveLoopPlain N L ai b maxDepth ?s (Some (i', j')) cells = Some (i, j) \<and>
           cellAt b i j = None \<and> (i, j) \<in> S \<and>
           t \<le> minimaxPlain N L ai (setCell b i j (Some ai)) 0 False maxDepth"
        by (rule Cons.IH[OF _ _ sub p]) (simp_all add: empty xs)
      then show ?thesis using empty True by (simp add: x)
    next
      case False
      have p: "t \<le> bestScore \<or> (\<exists>i j. (i, j) \<in> set cells \<and> cellAt b i j = None \<and>
           t \<le> minimaxPlain N L ai (setCell b i j (Some ai)) 0 False maxDepth)"
        using Cons.prems(4) False by (auto simp: x)
      from Cons.IH[OF Cons.prems(1,2) sub p]
      show ?thesis using empty False by (simp add: x)
    qed
  next
    case False
    have p: "t \<le> bestScore \<or> (\<exists>i j. (i, j) \<in> set cells \<and> cellAt b i j = None \<and>
           t \<le> minimaxPlain N L ai (setCell b i j (Some ai)) 0 False maxDepth)"
      using Cons.prems(4) False by (auto simp: x)
    from Cons.IH[OF Cons.prems(1,2) sub p]
    show ?thesis by (simp add: x False)
  qed
qed

subsection \<open>One turn keeps the human player from winning\<close>

lemma checkWinner_result:
  "\<exists>h. checkWinner g =
     (checkWinnerForMinimax (boardSize g) (winLength g) (gameBoard g), g\<lparr> highlighted := h \<rparr>)"
proof (cases "winningSequence (boardSize g) (winLength g) (gameBoard g)")
  case None
  then have "checkWinnerForMinimax (boardSize g) (winLength g) (gameBoard g) = None"
    using winningSequence_fst[of "boardSize g" "winLength g" "gameBoard g"] by simp
  with None have "checkWinner g = (checkWinnerForMinimax (boardSize g) (winLength g) (gameBoard g),
      g\<lparr> highlighted := highlighted g \<rparr>)"
    by (simp add: checkWinner_def)
  then show ?thesis by blast
next
  case (Some wc)
  obtain w cells where wc: "wc = (w, cells)" by (cases wc)
  have "checkWinnerForMinimax (boardSize g) (winLength g) (gameBoard g) = Some w"
    using winningSequence_fst[of "boardSize g" "winLength g" "gameBoard g"] Some wc by simp
  with Some wc have "checkWinner g = (checkWinnerForMinimax (boardSize g) (winLength g) (gameBoard g),
      g\<lparr> highlighted := highlighted g @ cells \<rparr>)"
    by (simp add: checkWinner_def)
  then show ?thesis by blast
qed

lemma settle:
  fixes g row col
  defines "g' \<equiv> checkGameEnd (makeMove row col g)"
    and "b1 \<equiv> setCell (gameBoard g) row col (Some (currentPlayer g))"
  shows "boardSize g' = boardSize g \<and> winLength g' = winLength g \<and> aiPlayer g' = aiPlayer g \<and>
         gameMode g' = gameMode g \<and> aiTimers g' = aiTimers g \<and> gameBoard g' = b1 \<and>
         (case checkWinnerForMinimax (boardSize g) (winLength g) b1 of
            Some p \<Rightarrow> \<not> gameActive g' \<and> statusText g' = WinsGame p
          | None \<Rightarrow>
              if isBoardFullForMinimax (boardSize g) b1
              then \<not> gameActive g' \<and> statusText g' = TieGame
              else gameActive g' = gameActive g \<and>
                   currentPlayer g' = (if currentPlayer g = PX then PO else PX) \<and>
                   (gameActive g \<longrightarrow> statusText g' = TurnOf (currentPlayer g')))"
proof -
  let ?m = "makeMove row col g"
  obtain h where c: "checkWinner ?m =
     (checkWinnerForMinimax (boardSize ?m) (winLength ?m) (gameBoard ?m), ?m\<lparr> highlighted := h \<rparr>)"
    using checkWinner_result[of ?m] by blast
  have m: "boardSize ?m = boardSize g" "winLength ?m = winLength g" "gameBoard ?m = b1"
    by (simp_all add: makeMove_def b1_def)
  show ?thesis
    unfolding g'_def checkGameEnd_def c m
    by (simp add: endGame_def switchPlayer_def updateStatus_def isBoardFull_def
          isBoardFullForMinimax_def makeMove_def b1_def split: option.split)
qed

lemma handleCellClick_legal:
  assumes "gameActive g" "wfBoard (boardSize g) (gameBoard g)" "inBounds (boardSize g) row col"
    and "cellAt (gameBoard g) row col = None"
  shows "snd (handleCellClick row col g) =
     (let g' = checkGameEnd (makeMove row col g)
      in if gameMode g' = ''ai'' \<and> currentPlayer g' = aiPlayer g' \<and> gameActive g'
         then g'\<lparr> aiTimers := aiTimers g' + 1 \<rparr> else g')"
proof -
  from assms(3) have r: "0 \<le> row" "row < boardSize g" and c: "0 \<le> col" "col < boardSize g"
    by (auto simp: inBounds_def)
  have len: "int (length (gameBoard g)) = boardSize g"
    using assms(2) by (simp add: wfBoard_def)
  have rowlen: "int (length (gameBoard g ! nat row)) = boardSize g"
    using wfBoard_row[OF assms(2) r] assms(2) by (simp add: wfBoard_def)
  obtain w g1 where cw: "checkWinner (makeMove row col g) = (w, g1)"
    by (cases "checkWinner (makeMove row col g)")
  show ?thesis
    using assms(1,4) r c len rowlen
    by (simp add: handleCellClick_def checkGameEnd_def cw endGame_def Let_def split: option.split)
qed

lemma findBestMove_plain: "findBestMove g = (findBestMovePlain g, g)"
  using bestMoveLoop_plain[of "boardSize g" "winLength g" "aiPlayer g" "gameBoard g"
        "maxDepthFor (boardSize g)" NegInfinity None "allCells (boardSize g)"]
    bestMoveLoop_restores[of "boardSize g" "winLength g" "aiPlayer g" "gameBoard g"
        "maxDepthFor (boardSize g)" NegInfinity None "allCells (boardSize g)"]
  by (simp add: findBestMove_def findBestMovePlain_def case_prod_unfold)

lemma makeAIMove_small:
  assumes "gameActive g" "boardSize g \<le> 5"
  shows "makeAIMove randomIndex g =
     (case findBestMovePlain g of
        None \<Rightarrow> g
      | Some (row, col) \<Rightarrow> checkGameEnd (makeMove row col g))"
  using assms
  by (simp add: makeAIMove_def findBestMove_plain checkGameEnd_def split: option.split)

lemma not_full_if_empty:
  assumes "inBounds N i j" "cellAt b i j = None"
  shows "\<not> isBoardFullForMinimax N b"
proof -
  from assms(1) have "(i, j) \<in> set (allCells N)" by (simp add: allCells_inBounds)
  with assms(2) show ?thesis
    unfolding isBoardFullForMinimax_def list_all_iff by force
qed

lemma emptyCount_le_9: "emptyCount 3 b \<le> 9"
proof -
  have "emptyCount 3 b \<le> length (allCells 3)" unfolding emptyCount_def by (rule length_filter_le)
  also have "length (allCells 3) = 9" by code_simp
  finally show ?thesis .
qed


lemma settled_safe:
  assumes "boardSize g = 3" "winLength g = 3" "aiPlayer g = PO" "gameMode g = ''ai''"
    and "wfBoard 3 (gameBoard g)" "aiTimers g = 0" "gameActive g"
    and "checkWinnerForMinimax 3 3 (setCell (gameBoard g) row col (Some (currentPlayer g))) \<noteq> Some PX"
    and "checkWinnerForMinimax 3 3 (setCell (gameBoard g) row col (Some (currentPlayer g))) = None \<Longrightarrow>
         \<not> isBoardFullForMinimax 3 (setCell (gameBoard g) row col (Some (currentPlayer g))) \<Longrightarrow>
         currentPlayer g = PO \<and>
         Number 0 \<le> minimaxPlain 3 3 PO (setCell (gameBoard g) row col (Some (currentPlayer g))) 0 False 9"
  shows "safeState (checkGameEnd (makeMove row col g))"
proof -
  let ?b1 = "setCell (gameBoard g) row col (Some (currentPlayer g))"
  let ?g' = "checkGameEnd (makeMove row col g)"
  note s = settle[of row col g, unfolded assms(1,2)]
  have wf: "wfBoard 3 ?b1" by (rule wfBoard_setCell[OF assms(5)])
  from s have f: "boardSize ?g' = 3" "winLength ?g' = 3" "aiPlayer ?g' = PO" "gameMode ?g' = ''ai''"
    "aiTimers ?g' = 0" "gameBoard ?g' = ?b1"
    using assms(1-6) by simp_all
  show ?thesis
  proof (cases "checkWinnerForMinimax 3 3 ?b1")
    case (Some p)
    with assms(8) have p: "p = PO" by (cases p) simp_all
    with s Some have "\<not> gameActive ?g'" "statusText ?g' = WinsGame PO" by simp_all
    with f wf Some p show ?thesis by (simp add: safeState_def)
  next
    case None
    show ?thesis
    proof (cases "isBoardFullForMinimax 3 ?b1")
      case True
      with s None have "\<not> gameActive ?g'" "statusText ?g' = TieGame" by simp_all
      with f wf None show ?thesis by (simp add: safeState_def)
    next
      case False
      from assms(9)[OF None False] have cur: "currentPlayer g = PO"
        and v: "Number 0 \<le> minimaxPlain 3 3 PO ?b1 0 False 9" by blast+
      from s None False assms(7) cur have "gameActive ?g'" "currentPlayer ?g' = PX"
        "statusText ?g' = TurnOf PX" by simp_all
      with f wf None v show ?thesis by (simp add: safeState_def)
    qed
  qed
qed

lemma safe_step:
  assumes "safeState g"
  shows "safeState (humanTurn g (row, col, randomIndex))"
proof (cases "gameActive g \<and> inBounds 3 row col \<and> cellAt (gameBoard g) row col = None")
  case False
  from assms have N: "boardSize g = 3" and wf: "wfBoard (boardSize g) (gameBoard g)"
    and nt: "aiTimers g = 0" by (simp_all add: safeState_def)
  from False have "\<not> gameActive g \<or> \<not> inBounds (boardSize g) row col \<or> cellAt (gameBoard g) row col \<noteq> None"
    by (simp add: N)
  from handleCellClick_rejected[OF wf this] have "snd (handleCellClick row col g) = g" by simp
  with nt assms show ?thesis by (simp add: fireTimer_def)
next
  case True
  then have act: "gameActive g" and ib: "inBounds 3 row col" and empty: "cellAt (gameBoard g) row col = None"
    by simp_all
  let ?b = "gameBoard g"
  from assms act have N: "boardSize g = 3" and L: "winLength g = 3" and ai: "aiPlayer g = PO"
    and mode: "gameMode g = ''ai''" and wf: "wfBoard 3 ?b" and nt: "aiTimers g = 0"
    and cur: "currentPlayer g = PX" and w0: "checkWinnerForMinimax 3 3 ?b = None"
    and v0: "Number 0 \<le> minimaxPlain 3 3 PO ?b 0 False 9"
    by (simp_all add: safeState_def)
  let ?b1 = "setCell ?b row col (Some PX)"
  let ?g1 = "checkGameEnd (makeMove row col g)"
  have mem: "(row, col) \<in> set (allCells 3)" using ib by (simp add: allCells_inBounds)
  have nf: "\<not> isBoardFullForMinimax 3 ?b" by (rule not_full_if_empty[OF ib empty])
  have "Number 0 \<le> minLoopPlain 3 3 PO ?b 0 9 Infinity (allCells 3)"
    using v0 minimaxPlain_min_node[OF w0 nf, of 0 9 PO] by simp
  from minLoopPlain_nonneg_child[OF this mem empty]
  have v1: "Number 0 \<le> minimaxPlain 3 3 PO ?b1 1 True 9" by (simp add: opponentOf_def)
  have w1x: "checkWinnerForMinimax 3 3 ?b1 \<noteq> Some PX"
  proof
    assume "checkWinnerForMinimax 3 3 ?b1 = Some PX"
    then have "checkWinnerForMinimax 3 3 ?b1 = Some (opponentOf PO)" by (simp add: opponentOf_def)
    from minimaxPlain_lost[OF this, of 1 True 9] v1 show False by simp
  qed
  have wf1: "wfBoard 3 ?b1" by (rule wfBoard_setCell[OF wf])
  note s1 = settle[of row col g, unfolded N L cur]
  from s1 have f1: "boardSize ?g1 = 3" "winLength ?g1 = 3" "aiPlayer ?g1 = PO" "gameMode ?g1 = ''ai''"
    "aiTimers ?g1 = 0" "gameBoard ?g1 = ?b1"
    using N L ai mode nt by simp_all
  have click: "snd (handleCellClick row col g) =
      (if currentPlayer ?g1 = PO \<and> gameActive ?g1 then ?g1\<lparr> aiTimers := aiTimers ?g1 + 1 \<rparr> else ?g1)"
    using handleCellClick_legal[of g row col] act wf ib empty N f1 by (simp add: Let_def)
  show ?thesis
  proof (cases "checkWinnerForMinimax 3 3 ?b1 = None \<and> \<not> isBoardFullForMinimax 3 ?b1")
    case False
    have safe1: "safeState ?g1"
      using settled_safe[OF N L ai mode wf nt act, of row col] w1x False by (auto simp: cur)
    have "\<not> gameActive ?g1"
      using s1 False by (auto split: option.splits)
    with click have "snd (handleCellClick row col g) = ?g1" by simp
    with f1 safe1 show ?thesis by (simp add: fireTimer_def)
  next
    case cont: True
    then have w1: "checkWinnerForMinimax 3 3 ?b1 = None" and nf1: "\<not> isBoardFullForMinimax 3 ?b1"
      by simp_all
    from s1 w1 nf1 act have a1: "gameActive ?g1" and c1: "currentPlayer ?g1 = PO" by simp_all
    from click a1 c1 have "snd (handleCellClick row col g) = ?g1\<lparr> aiTimers := aiTimers ?g1 + 1 \<rparr>" by simp
    then have turn: "humanTurn g (row, col, randomIndex) = makeAIMove randomIndex ?g1"
      by (simp add: fireTimer_def)
    have "Number 0 \<le> maxLoopPlain 3 3 PO ?b1 1 9 NegInfinity (allCells 3)"
      using v1 minimaxPlain_max_node[OF w1 nf1, of 1 9 PO] by simp
    from maxLoopPlain_nonneg_child[OF this]
    obtain i j where ij: "(i, j) \<in> set (allCells 3)" and e1: "cellAt ?b1 i j = None"
      and v2: "Number 0 \<le> minimaxPlain 3 3 PO (setCell ?b1 i j (Some PO)) 2 False 9"
      by auto
    have ib2: "inBounds 3 i j" using ij by (simp add: allCells_inBounds)
    let ?c = "setCell ?b1 i j (Some PO)"
    have wfc: "wfBoard 3 ?c" by (rule wfBoard_setCell[OF wf1])
    have "emptyCount 3 ?b = Suc (emptyCount 3 ?b1)" by (rule emptyCount_setCell[OF wf ib empty])
    moreover have "emptyCount 3 ?b1 = Suc (emptyCount 3 ?c)" by (rule emptyCount_setCell[OF wf1 ib2 e1])
    ultimately have ec: "emptyCount 3 ?c \<le> 7" using emptyCount_le_9[of ?b] by simp
    have v3: "Number 0 \<le> minimaxPlain 3 3 PO ?c 0 False 9"
      by (rule sign_depth(1)[OF wfc _ _ _ v2]) (use ec in simp_all)
    have "\<exists>r c. bestMoveLoopPlain 3 3 PO ?b1 9 NegInfinity None (allCells 3) = Some (r, c) \<and>
           cellAt ?b1 r c = None \<and> (r, c) \<in> set (allCells 3) \<and>
           Number 0 \<le> minimaxPlain 3 3 PO (setCell ?b1 r c (Some PO)) 0 False 9"
    proof (rule bestMoveLoopPlain_picks)
      show "NegInfinity < Number 0" by (simp add: less_jsnum_def)
      show "Number 0 \<le> NegInfinity \<or> (\<exists>i j. (i, j) \<in> set (allCells 3) \<and> cellAt ?b1 i j = None \<and>
           Number 0 \<le> minimaxPlain 3 3 PO (setCell ?b1 i j (Some PO)) 0 False 9)"
        using ij e1 v3 by blast
    qed simp_all
    then obtain r c where best: "findBestMovePlain ?g1 = Some (r, c)"
      and e2: "cellAt ?b1 r c = None" and rc: "(r, c) \<in> set (allCells 3)"
      and v4: "Number 0 \<le> minimaxPlain 3 3 PO (setCell ?b1 r c (Some PO)) 0 False 9"
      using f1 by (auto simp: findBestMovePlain_def maxDepthFor_def)
    have w2x: "checkWinnerForMinimax 3 3 (setCell ?b1 r c (Some PO)) \<noteq> Some PX"
    proof
      assume "checkWinnerForMinimax 3 3 (setCell ?b1 r c (Some PO)) = Some PX"
      then have "checkWinnerForMinimax 3 3 (setCell ?b1 r c (Some PO)) = Some (opponentOf PO)"
        by (simp add: opponentOf_def)
      from minimaxPlain_lost[OF this, of 0 False 9] v4 show False by simp
    qed
    have "makeAIMove randomIndex ?g1 = checkGameEnd (makeMove r c ?g1)"
      using makeAIMove_small[of ?g1 randomIndex] a1 f1(1) best by simp
    moreover have "safeState (checkGameEnd (makeMove r c ?g1))"
      using settled_safe[OF f1(1-4) _ f1(5) a1, of r c] wf1 w2x v4 by (simp add: f1(6) c1)
    ultimately show ?thesis using turn by simp
  qed
qed

lemma safe_play:
  assumes "safeState g"
  shows "safeState (playGame g clicks)"
  using assms unfolding playGame_def
proof (induction clicks arbitrary: g)
  case Nil
  then show ?case by simp
next
  case (Cons x clicks)
  obtain row col randomIndex where x: "x = (row, col, randomIndex)" by (cases x)
  from Cons.prems have "safeState (humanTurn g x)" unfolding x by (rule safe_step)
  from Cons.IH[OF this] show ?case by simp
qed

subsection \<open>The value of the empty board\<close>

text \<open>The detectors and the board operations on a 3x3 board given cell by cell.\<close>

lemma allCells_3: "allCells 3 = [(0,0),(0,1),(0,2),(1,0),(1,1),(1,2),(2,0),(2,1),(2,2)]"
  by code_simp

lemma windows_3_3: "windows 3 3 =
  [((0,0),(0,1)), ((1,0),(0,1)), ((2,0),(0,1)),
   ((0,0),(1,0)), ((0,1),(1,0)), ((0,2),(1,0)),
   ((0,0),(1,1)), ((0,2),(1,-1))]"
  by code_simp

lemma upto_1_2: "[1..(2::int)] = [1,2]"
  by code_simp

lemma cellAt_3x3:
  "cellAt [[a,b,c],[d,e,f],[g,h,i]] 0 0 = a"
  "cellAt [[a,b,c],[d,e,f],[g,h,i]] 0 1 = b"
  "cellAt [[a,b,c],[d,e,f],[g,h,i]] 0 2 = c"
  "cellAt [[a,b,c],[d,e,f],[g,h,i]] 1 0 = d"
  "cellAt [[a,b,c],[d,e,f],[g,h,i]] 1 1 = e"
  "cellAt [[a,b,c],[d,e,f],[g,h,i]] 1 2 = f"
  "cellAt [[a,b,c],[d,e,f],[g,h,i]] 2 0 = g"
  "cellAt [[a,b,c],[d,e,f],[g,h,i]] 2 1 = h"
  "cellAt [[a,b,c],[d,e,f],[g,h,i]] 2 2 = i"
  by (simp_all add: cellAt_def)

lemma setCell_3x3:
  "setCell [[a,b,c],[d,e,f],[g,h,i]] 0 0 v = [[v,b,c],[d,e,f],[g,h,i]]"
  "setCell [[a,b,c],[d,e,f],[g,h,i]] 0 1 v = [[a,v,c],[d,e,f],[g,h,i]]"
  "setCell [[a,b,c],[d,e,f],[g,h,i]] 0 2 v = [[a,b,v],[d,e,f],[g,h,i]]"
  "setCell [[a,b,c],[d,e,f],[g,h,i]] 1 0 v = [[a,b,c],[v,e,f],[g,h,i]]"
  "setCell [[a,b,c],[d,e,f],[g,h,i]] 1 1 v = [[a,b,c],[d,v,f],[g,h,i]]"
  "setCell [[a,b,c],[d,e,f],[g,h,i]] 1 2 v = [[a,b,c],[d,e,v],[g,h,i]]"
  "setCell [[a,b,c],[d,e,f],[g,h,i]] 2 0 v = [[a,b,c],[d,e,f],[v,h,i]]"
  "setCell [[a,b,c],[d,e,f],[g,h,i]] 2 1 v = [[a,b,c],[d,e,f],[g,v,i]]"
  "setCell [[a,b,c],[d,e,f],[g,h,i]] 2 2 v = [[a,b,c],[d,e,f],[g,h,v]]"
  by (simp_all add: setCell_def numeral_2_eq_2)

lemma full_3x3:
  "isBoardFullForMinimax 3 [[a,b,c],[d,e,f],[g,h,i]] \<longleftrightarrow>
     a \<noteq> None \<and> b \<noteq> None \<and> c \<noteq> None \<and> d \<noteq> None \<and> e \<noteq> None \<and> f \<noteq> None \<and>
     g \<noteq> None \<and> h \<noteq> None \<and> i \<noteq> None"
  by (simp add: isBoardFullForMinimax_def allCells_3 cellAt_3x3)

lemma lines_3x3:
  "checkSequenceM 3 3 [[a,b,c],[d,e,f],[g,h,i]] 0 0 0 1 = (if a \<noteq> None \<and> b = a \<and> c = a then a else None)"
  "checkSequenceM 3 3 [[a,b,c],[d,e,f],[g,h,i]] 1 0 0 1 = (if d \<noteq> None \<and> e = d \<and> f = d then d else None)"
  "checkSequenceM 3 3 [[a,b,c],[d,e,f],[g,h,i]] 2 0 0 1 = (if g \<noteq> None \<and> h = g \<and> i = g then g else None)"
  "checkSequenceM 3 3 [[a,b,c],[d,e,f],[g,h,i]] 0 0 1 0 = (if a \<noteq> None \<and> d = a \<and> g = a then a else None)"
  "checkSequenceM 3 3 [[a,b,c],[d,e,f],[g,h,i]] 0 1 1 0 = (if b \<noteq> None \<and> e = b \<and> h = b then b else None)"
  "checkSequenceM 3 3 [[a,b,c],[d,e,f],[g,h,i]] 0 2 1 0 = (if c \<noteq> None \<and> f = c \<and> i = c then c else None)"
  "checkSequenceM 3 3 [[a,b,c],[d,e,f],[g,h,i]] 0 0 1 1 = (if a \<noteq> None \<and> e = a \<and> i = a then a else None)"
  "checkSequenceM 3 3 [[a,b,c],[d,e,f],[g,h,i]] 0 2 1 (- 1) = (if c \<noteq> None \<and> e = c \<and> g = c then c else None)"
  by (simp_all add: checkSequenceM_def upto_1_2 cellAt_3x3 Let_def split: option.split)

lemma case_line:
  "(case (if x \<noteq> None \<and> Q then x else None) of None \<Rightarrow> r | Some y \<Rightarrow> Some y) =
     (if x \<noteq> None \<and> Q then x else r)"
  by auto

lemma winner_3x3:
  "checkWinnerForMinimax 3 3 [[a,b,c],[d,e,f],[g,h,i]] =
     (if a \<noteq> None \<and> b = a \<and> c = a then a
      else if d \<noteq> None \<and> e = d \<and> f = d then d
      else if g \<noteq> None \<and> h = g \<and> i = g then g
      else if a \<noteq> None \<and> d = a \<and> g = a then a
      else if b \<noteq> None \<and> e = b \<and> h = b then b
      else if c \<noteq> None \<and> f = c \<and> i = c then c
      else if a \<noteq> None \<and> e = a \<and> i = a then a
      else if c \<noteq> None \<and> e = c \<and> g = c then c
      else None)"
  unfolding checkWinnerForMinimax_def windows_3_3 firstSome.simps prod.case lines_3x3 case_line
  by (rule refl)


lemmas eval_3x3 = minimax.simps(1) allCells_3 winner_3x3 full_3x3 cellAt_3x3 setCell_3x3 Let_def
  opponentOf_def max_def min_def

lemma opening_0_0:
  "snd (minimax 3 3 PO [[Some PX, None, None], [None, None, None], [None, None, None]] 1 True (Number (- 1)) (Number 0) 9) = Number 0"
  by (simp add: eval_3x3)

lemma opening_0_1:
  "snd (minimax 3 3 PO [[None, Some PX, None], [None, None, None], [None, None, None]] 1 True (Number (- 1)) (Number 0) 9) = Number 0"
  by (simp add: eval_3x3)

lemma opening_0_2:
  "snd (minimax 3 3 PO [[None, None, Some PX], [None, None, None], [None, None, None]] 1 True (Number (- 1)) (Number 0) 9) = Number 0"
  by (simp add: eval_3x3)

lemma opening_1_0:
  "snd (minimax 3 3 PO [[None, None, None], [Some PX, None, None], [None, None, None]] 1 True (Number (- 1)) (Number 0) 9) = Number 0"
  by (simp add: eval_3x3)

lemma opening_1_1:
  "snd (minimax 3 3 PO [[None, None, None], [None, Some PX, None], [None, None, None]] 1 True (Number (- 1)) (Number 0) 9) = Number 0"
  by (simp add: eval_3x3)

lemma opening_1_2:
  "snd (minimax 3 3 PO [[None, None, None], [None, None, Some PX], [None, None, None]] 1 True (Number (- 1)) (Number 0) 9) = Number 0"
  by (simp add: eval_3x3)

lemma opening_2_0:
  "snd (minimax 3 3 PO [[None, None, None], [None, None, None], [Some PX, None, None]] 1 True (Number (- 1)) (Number 0) 9) = Number 0"
  by (simp add: eval_3x3)

lemma opening_2_1:
  "snd (minimax 3 3 PO [[None, None, None], [None, None, None], [None, Some PX, None]] 1 True (Number (- 1)) (Number 0) 9) = Number 0"
  by (simp add: eval_3x3)

lemma opening_2_2:
  "snd (minimax 3 3 PO [[None, None, None], [None, None, None], [None, None, Some PX]] 1 True (Number (- 1)) (Number 0) 9) = Number 0"
  by (simp add: eval_3x3)

lemma nonneg_from_search:
  assumes "snd (minimax N L ai b depth isMaximizing (Number (- 1)) (Number 0) maxDepth) = Number 0"
  shows "Number 0 \<le> minimaxPlain N L ai b depth isMaximizing maxDepth"
proof -
  have "agreesWithin (Number (- 1)) (Number 0) (minimaxPlain N L ai b depth isMaximizing maxDepth)
          (snd (minimax N L ai b depth isMaximizing (Number (- 1)) (Number 0) maxDepth))"
    by (rule minimax_agrees(1)) simp
  then show ?thesis unfolding assms agreesWithin_def by simp
qed

lemmas opening_nonneg =
  nonneg_from_search[OF opening_0_0] nonneg_from_search[OF opening_0_1]
  nonneg_from_search[OF opening_0_2] nonneg_from_search[OF opening_1_0]
  nonneg_from_search[OF opening_1_1] nonneg_from_search[OF opening_1_2]
  nonneg_from_search[OF opening_2_0] nonneg_from_search[OF opening_2_1]
  nonneg_from_search[OF opening_2_2]

lemma empty_board_nonneg:
  "Number 0 \<le> minimaxPlain 3 3 PO [[None, None, None], [None, None, None], [None, None, None]] 0 False 9"
proof -
  let ?b = "[[None, None, None], [None, None, None], [None, None, None]]"
  have w: "checkWinnerForMinimax 3 3 ?b = None" by (simp add: winner_3x3)
  have nf: "\<not> isBoardFullForMinimax 3 ?b" by (simp add: full_3x3)
  have "Number 0 \<le> minLoopPlain 3 3 PO ?b 0 9 Infinity (allCells 3)"
  proof (rule minLoopPlain_nonneg)
    show "Number 0 \<le> Infinity" by simp
  next
    fix i j
    assume "(i, j) \<in> set (allCells 3)" and "cellAt ?b i j = None"
    then show "Number 0 \<le> minimaxPlain 3 3 PO (setCell ?b i j (Some (opponentOf PO))) (0 + 1) True 9"
      by (auto simp: allCells_3 setCell_3x3 opponentOf_def opening_nonneg)
  qed
  then show ?thesis using minimaxPlain_min_node[OF w nf, of 0 9 PO] by simp
qed

lemma initial_session:
  "snd (initGame 3 ''ai'' initialGlobals) =
     \<lparr> boardSize = 3, gameMode = ''ai'', currentPlayer = PX,
       gameBoard = [[None, None, None], [None, None, None], [None, None, None]],
       gameActive = True, aiPlayer = PO, winLength = 3, statusText = TurnOf PX,
       highlighted = [], aiTimers = 0 \<rparr>"
  by code_simp

lemma initial_safe: "safeState (snd (initGame 3 ''ai'' initialGlobals))"
proof -
  have "wfBoard 3 [[None, None, None], [None, None, None], [None, None, None]]" by code_simp
  then show ?thesis
    unfolding initial_session safeState_def
    using empty_board_nonneg by (simp add: winner_3x3)
qed


lemma finished_game:
  "playGame (snd (initGame 3 ''ai'' initialGlobals)) [(0, 0, 0), (0, 1, 0), (1, 0, 0)] =
     \<lparr> boardSize = 3, gameMode = ''ai'', currentPlayer = PO,
       gameBoard = [[Some PX, Some PX, Some PO], [Some PX, Some PO, None], [Some PO, None, None]],
       gameActive = False, aiPlayer = PO, winLength = 3, statusText = WinsGame PO,
       highlighted = [(0, 2), (1, 1), (2, 0)], aiTimers = 0 \<rparr>"
  by code_simp

text \<open>
  Claim C5.  A game against the computer on the 3x3 board with run-length 3 starts from
  the empty board with the human player \<open>X\<close> to move, and every click is followed by the
  timeout it scheduled, in which the computer \<open>O\<close> plays the move of \<open>findBestMove\<close>
  (\<open>maxDepth = 9\<close>).  After every sequence of clicks, the rejected ones included, the
  computer has not lost: the status does not announce a win of \<open>X\<close>, the board holds no
  complete run of \<open>X\<close>, and when the game has ended the result is a tie or a win of \<open>O\<close>.
\<close>

theorem computer_never_loses:
  "statusText (playGame (snd (initGame 3 ''ai'' initialGlobals)) clicks) \<noteq> WinsGame PX \<and>
   checkWinnerForMinimax 3 3 (gameBoard (playGame (snd (initGame 3 ''ai'' initialGlobals)) clicks))
     \<noteq> Some PX \<and>
   (\<not> gameActive (playGame (snd (initGame 3 ''ai'' initialGlobals)) clicks) \<longrightarrow>
      statusText (playGame (snd (initGame 3 ''ai'' initialGlobals)) clicks) = TieGame \<or>
      statusText (playGame (snd (initGame 3 ''ai'' initialGlobals)) clicks) = WinsGame PO)"
  using safe_play[OF initial_safe, of clicks] by (auto simp: safeState_def split: if_splits)

theorem computer_never_loses_witness:
  "\<not> gameActive (playGame (snd (initGame 3 ''ai'' initialGlobals)) [(0, 0, 0), (0, 1, 0), (1, 0, 0)]) \<and>
   gameBoard (playGame (snd (initGame 3 ''ai'' initialGlobals)) [(0, 0, 0), (0, 1, 0), (1, 0, 0)]) =
     [[Some PX, Some PX, Some PO], [Some PX, Some PO, None], [Some PO, None, None]] \<and>
   statusText (playGame (snd (initGame 3 ''ai'' initialGlobals)) [(0, 0, 0), (0, 1, 0), (1, 0, 0)]) \<noteq> WinsGame PX \<and>
   (statusText (playGame (snd (initGame 3 ''ai'' initialGlobals)) [(0, 0, 0), (0, 1, 0), (1, 0, 0)]) = TieGame \<or>
    statusText (playGame (snd (initGame 3 ''ai'' initialGlobals)) [(0, 0, 0), (0, 1, 0), (1, 0, 0)]) = WinsGame PO)"
proof -
  let ?s = "playGame (snd (initGame 3 ''ai'' initialGlobals)) [(0, 0, 0), (0, 1, 0), (1, 0, 0)]"
  have ended: "\<not> gameActive ?s" unfolding finished_game by simp
  have board: "gameBoard ?s =
      [[Some PX, Some PX, Some PO], [Some PX, Some PO, None], [Some PO, None, None]]"
    unfolding finished_game by simp
  from computer_never_loses[of "[(0, 0, 0), (0, 1, 0), (1, 0, 0)]"] ended
  have "statusText ?s \<noteq> WinsGame PX" "statusText ?s = TieGame \<or> statusText ?s = WinsGame PO"
    by blast+
  with ended board show ?thesis by blast
qed

end
